theory Spec2Isabelle
  imports Main
begin

section \<open>Data model of \<open>NodeGLSPClient\<close>\<close>

text \<open>
  The lifecycle states that \<open>node-glsp-client.ts\<close> assigns to and compares with
  (\<open>ClientState.Initial\<close>, \<open>Starting\<close>, \<open>StartFailed\<close>, \<open>Running\<close>, \<open>Stopping\<close>,
  \<open>Stopped\<close>).
\<close>

datatype ClientState = Initial | Starting | StartFailed | Running | Stopping | Stopped

text \<open>
  The four \<open>Error\<close> objects the class creates, a failure raised by the server, and an
  exception thrown by a message handler.
  \<^item> \<open>AlreadyRunning\<close>: 'Could not configure new server. The GLSPClient is already running'
  \<^item> \<open>StartupTimeout\<close>: 'Could not start client. No server is configured'
  \<^item> \<open>NotRunning id\<close>: "Client with id '...' is not in 'Running' state"
  \<^item> \<open>NoServerConfigured id\<close>: "No server is configured for GLSPClient with id '...'"
\<close>

datatype error =
    AlreadyRunning
  | StartupTimeout
  | NotRunning string
  | NoServerConfigured string
  | ServerFailure string
  | HandlerFailure string

text \<open>
  \<open>Deferred<T>\<close> (sprotty-protocol): a promise together with its \<open>resolve\<close> and \<open>reject\<close>
  functions. A promise settles once; settling it again does nothing.
\<close>

datatype 'a Deferred = Unsettled | Resolved 'a | Rejected error

definition resolve :: "'a \<Rightarrow> 'a Deferred \<Rightarrow> 'a Deferred" where
  "resolve v d = (case d of Unsettled \<Rightarrow> Resolved v | _ \<Rightarrow> d)"

definition reject :: "error \<Rightarrow> 'a Deferred \<Rightarrow> 'a Deferred" where
  "reject e d = (case d of Unsettled \<Rightarrow> Rejected e | _ \<Rightarrow> d)"

text \<open>
  \<open>GLSPServer\<close> is the collaborator the client delegates to. Each field is the behaviour
  of one of its methods: \<open>Inl\<close> or \<open>Some\<close> is the failure it raises, \<open>Inr\<close> or \<open>None\<close> its
  normal return. The server is taken not to call back into the client while one of its
  methods runs.
\<close>

record GLSPServer =
  server_name :: string
  srv_initialize :: "string \<Rightarrow> string + string"
  srv_initializeClientSession :: "string \<Rightarrow> string option"
  srv_disposeClientSession :: "string \<Rightarrow> string option"
  srv_shutdown :: "string option"
  srv_process :: "string \<Rightarrow> string option"

text \<open>
  What a run of the client does to the outside, in order: every assignment to \<open>state\<close>,
  every call forwarded to the server, every handler invocation and the \<open>console.warn\<close>
  of the proxy.
\<close>

datatype effect =
    SetState ClientState
  | Shutdown string
  | Process string string
  | Initialize string string
  | InitializeClientSession string string
  | DisposeClientSession string string
  | Invoke nat string
  | Warn string

text \<open>
  The timer created by \<open>setTimeout\<close> in \<open>start()\<close>, and the promise chain
  \<open>Promise.race([...]).then(...).catch(...)\<close>: \<open>Racing\<close> while neither input has settled,
  \<open>Won server\<close> and \<open>Lost error\<close> once the race is decided and its callback is queued,
  \<open>Finished\<close> after the callback ran.
\<close>

datatype timer = NoTimer | Armed nat | Fired

datatype race = NotRacing | Racing | Won GLSPServer | Lost error | Finished

text \<open>
  The fields of the class. A message handler is a function object compared by identity;
  it is represented by a number, and what it does when called is given separately.
\<close>

record NodeGLSPClient =
  options_id :: string
  state :: ClientState
  server :: "GLSPServer option"
  serverDeferred :: "GLSPServer Deferred"
  onStartDeferred :: "unit Deferred"
  onStopDeferred :: "unit Deferred"
  startupTimeout :: nat
  actionMessageHandlers :: "nat list"
  timer :: timer
  race :: race

text \<open>The constructor and the field initialisers.\<close>

definition new_client :: "string \<Rightarrow> NodeGLSPClient" where
  "new_client ident =
     \<lparr> options_id = ident, state = Initial, server = None,
       serverDeferred = Unsettled, onStartDeferred = Unsettled, onStopDeferred = Unsettled,
       startupTimeout = 1500, actionMessageHandlers = [],
       timer = NoTimer, race = NotRacing \<rparr>"

text \<open>
  A promise handed to a caller: one of the two long-lived signals of the client, or the
  promise of an \<open>async\<close> call that has already settled.
\<close>

datatype signal = StartedSignal | StoppedSignal

datatype promise = Signal signal | Fulfilled | Failed error

definition outcome :: "NodeGLSPClient \<Rightarrow> promise \<Rightarrow> unit Deferred" where
  "outcome s p =
     (case p of
        Signal StartedSignal \<Rightarrow> onStartDeferred s
      | Signal StoppedSignal \<Rightarrow> onStopDeferred s
      | Fulfilled \<Rightarrow> Resolved ()
      | Failed e \<Rightarrow> Rejected e)"

section \<open>Lifecycle operations\<close>

text \<open>
  \<open>configureServer(server)\<close>. Resolving \<open>serverDeferred\<close> while the race is undecided
  decides it for the server; the \<open>then\<close> callback runs later, as a microtask.
\<close>

definition configureServer :: "GLSPServer \<Rightarrow> NodeGLSPClient \<Rightarrow> error + NodeGLSPClient" where
  "configureServer srv s =
     (if state s = Running then Inl AlreadyRunning
      else Inr (s\<lparr> serverDeferred := resolve srv (serverDeferred s),
                   race := (case race s of
                              Racing \<Rightarrow> (case serverDeferred s of Unsettled \<Rightarrow> Won srv
                                         | Resolved v \<Rightarrow> Won v
                                         | Rejected e \<Rightarrow> Lost e)
                            | r \<Rightarrow> r) \<rparr>))"

text \<open>
  \<open>start()\<close>. The synchronous part: the guard, the assignment of \<open>Starting\<close>, the timer
  with the timeout read at this moment, and the race, which is decided at once when
  \<open>serverDeferred\<close> has already settled.
\<close>

definition start :: "NodeGLSPClient \<Rightarrow> NodeGLSPClient \<times> effect list \<times> promise" where
  "start s =
     (if state s \<noteq> Initial then (s, [], Signal StartedSignal)
      else (s\<lparr> state := Starting,
                timer := Armed (startupTimeout s),
                race := (case serverDeferred s of
                           Unsettled \<Rightarrow> Racing
                         | Resolved v \<Rightarrow> Won v
                         | Rejected e \<Rightarrow> Lost e) \<rparr>,
            [SetState Starting], Signal StartedSignal))"

text \<open>
  The queued callback of the race: the \<open>then\<close> branch for a server, the \<open>catch\<close> branch
  for a rejection.
\<close>

definition microtask :: "NodeGLSPClient \<Rightarrow> NodeGLSPClient \<times> effect list" where
  "microtask s =
     (case race s of
        Won srv \<Rightarrow>
          (s\<lparr> server := Some srv, state := Running,
              onStartDeferred := resolve () (onStartDeferred s), race := Finished \<rparr>,
           [SetState Running])
      | Lost e \<Rightarrow>
          (s\<lparr> state := StartFailed,
              onStartDeferred := reject e (onStartDeferred s), race := Finished \<rparr>,
           [SetState StartFailed])
      | _ \<Rightarrow> (s, []))"

text \<open>
  The timer callback. It runs as a task of its own, and the reactions to its rejection
  run before any other caller code, so an undecided race is lost and its \<open>catch\<close>
  callback runs in the same step. A race already decided ignores the rejection.
\<close>

definition timerFires :: "NodeGLSPClient \<Rightarrow> NodeGLSPClient \<times> effect list" where
  "timerFires s =
     (case timer s of
        Armed ms \<Rightarrow>
          (case race s of
             Racing \<Rightarrow> microtask (s\<lparr> timer := Fired, race := Lost StartupTimeout \<rparr>)
           | _ \<Rightarrow> (s\<lparr> timer := Fired \<rparr>, []))
      | _ \<Rightarrow> (s, []))"

text \<open>
  \<open>stop()\<close>. The function is \<open>async\<close> but contains no \<open>await\<close>: its body runs to the end
  at the call. The \<open>finally\<close> block runs on both exits of the \<open>try\<close>; there is no
  \<open>catch\<close>, so a failure of \<open>shutdown()\<close> leaves through the returned promise.
\<close>

definition stop_finally :: "NodeGLSPClient \<Rightarrow> NodeGLSPClient" where
  "stop_finally s = s\<lparr> state := Stopped, onStopDeferred := resolve () (onStopDeferred s) \<rparr>"

definition stop :: "NodeGLSPClient \<Rightarrow> NodeGLSPClient \<times> effect list \<times> promise" where
  "stop s =
     (if state s = Stopped \<or> state s = Stopping then (s, [], Signal StoppedSignal)
      else
        (let s1 = s\<lparr> state := Stopping \<rparr> in
         case server s1 of
           None \<Rightarrow> (stop_finally s1, [SetState Stopping, SetState Stopped], Fulfilled)
         | Some srv \<Rightarrow>
             (case srv_shutdown srv of
                None \<Rightarrow>
                  (stop_finally s1,
                   [SetState Stopping, Shutdown (server_name srv), SetState Stopped],
                   Fulfilled)
              | Some e \<Rightarrow>
                  (stop_finally s1,
                   [SetState Stopping, Shutdown (server_name srv), SetState Stopped],
                   Failed (ServerFailure e)))))"

definition setStartupTimeout :: "nat \<Rightarrow> NodeGLSPClient \<Rightarrow> NodeGLSPClient" where
  "setStartupTimeout ms s = s\<lparr> startupTimeout := ms \<rparr>"

section \<open>Operations that need the server\<close>

definition checkState :: "NodeGLSPClient \<Rightarrow> error option" where
  "checkState s = (if state s \<noteq> Running then Some (NotRunning (options_id s)) else None)"

definition checkedServer :: "NodeGLSPClient \<Rightarrow> error + GLSPServer" where
  "checkedServer s =
     (case checkState s of
        Some e \<Rightarrow> Inl e
      | None \<Rightarrow>
          (case server s of
             None \<Rightarrow> Inl (NoServerConfigured (options_id s))
           | Some srv \<Rightarrow> Inr srv))"

definition initializeServer :: "string \<Rightarrow> NodeGLSPClient \<Rightarrow> (error + string) \<times> effect list" where
  "initializeServer params s =
     (case checkedServer s of
        Inl e \<Rightarrow> (Inl e, [])
      | Inr srv \<Rightarrow>
          (case srv_initialize srv params of
             Inl f \<Rightarrow> (Inl (ServerFailure f), [Initialize (server_name srv) params])
           | Inr r \<Rightarrow> (Inr r, [Initialize (server_name srv) params])))"

definition initializeClientSession :: "string \<Rightarrow> NodeGLSPClient \<Rightarrow> (error + unit) \<times> effect list" where
  "initializeClientSession params s =
     (case checkedServer s of
        Inl e \<Rightarrow> (Inl e, [])
      | Inr srv \<Rightarrow>
          (case srv_initializeClientSession srv params of
             Some f \<Rightarrow> (Inl (ServerFailure f), [InitializeClientSession (server_name srv) params])
           | None \<Rightarrow> (Inr (), [InitializeClientSession (server_name srv) params])))"

definition disposeClientSession :: "string \<Rightarrow> NodeGLSPClient \<Rightarrow> (error + unit) \<times> effect list" where
  "disposeClientSession params s =
     (case checkedServer s of
        Inl e \<Rightarrow> (Inl e, [])
      | Inr srv \<Rightarrow>
          (case srv_disposeClientSession srv params of
             Some f \<Rightarrow> (Inl (ServerFailure f), [DisposeClientSession (server_name srv) params])
           | None \<Rightarrow> (Inr (), [DisposeClientSession (server_name srv) params])))"

definition shutdownServer :: "NodeGLSPClient \<Rightarrow> (error + unit) \<times> effect list" where
  "shutdownServer s =
     (case checkedServer s of
        Inl e \<Rightarrow> (Inl e, [])
      | Inr srv \<Rightarrow>
          (case srv_shutdown srv of
             Some f \<Rightarrow> (Inl (ServerFailure f), [Shutdown (server_name srv)])
           | None \<Rightarrow> (Inr (), [Shutdown (server_name srv)])))"

definition sendActionMessage :: "string \<Rightarrow> NodeGLSPClient \<Rightarrow> (error + unit) \<times> effect list" where
  "sendActionMessage message s =
     (case checkedServer s of
        Inl e \<Rightarrow> (Inl e, [])
      | Inr srv \<Rightarrow>
          (case srv_process srv message of
             Some f \<Rightarrow> (Inl (ServerFailure f), [Process (server_name srv) message])
           | None \<Rightarrow> (Inr (), [Process (server_name srv) message])))"

section \<open>Message handlers and the client proxy\<close>

text \<open>
  Modelled from the spec: \<open>distinctAdd\<close> and \<open>remove\<close> of \<open>utils/array-util\<close> are imported
  by the class but are not among the sources. The spec describes the handlers as an
  ordered set without duplicates, where registering a handler twice has no further effect
  and unregistering removes exactly that handler: \<open>distinctAdd\<close> appends a value that the
  array does not include, \<open>remove\<close> deletes the first occurrence of a value.
\<close>

definition distinctAdd :: "'a list \<Rightarrow> 'a \<Rightarrow> 'a list" where
  "distinctAdd array v = (if v \<in> set array then array else array @ [v])"

fun remove :: "'a list \<Rightarrow> 'a \<Rightarrow> 'a list" where
  "remove [] v = []"
| "remove (x # xs) v = (if x = v then xs else x # remove xs v)"

text \<open>
  \<open>onActionMessage(handler)\<close> returns a \<open>Disposable\<close> whose \<open>dispose()\<close> removes the
  handler it was created for.
\<close>

datatype Disposable = Disposable nat

definition onActionMessage :: "nat \<Rightarrow> NodeGLSPClient \<Rightarrow> NodeGLSPClient \<times> Disposable" where
  "onActionMessage handler s =
     (s\<lparr> actionMessageHandlers := distinctAdd (actionMessageHandlers s) handler \<rparr>,
      Disposable handler)"

fun dispose :: "Disposable \<Rightarrow> NodeGLSPClient \<Rightarrow> NodeGLSPClient" where
  "dispose (Disposable handler) s =
     s\<lparr> actionMessageHandlers := remove (actionMessageHandlers s) handler \<rparr>"

text \<open>
  What a handler does when it is called with a message: in the order given it registers
  handlers and disposes registrations, its own included, and it either returns or throws.
  What it does after a \<open>throw\<close> never happens. The behaviour of every handler is a
  parameter of the dispatch.
\<close>

datatype call = Subscribe nat | Unsubscribe nat | Throw string

type_synonym behaviour = "nat \<Rightarrow> string \<Rightarrow> call list"

fun run_calls :: "call list \<Rightarrow> NodeGLSPClient \<Rightarrow> NodeGLSPClient \<times> error option" where
  "run_calls [] s = (s, None)"
| "run_calls (Subscribe h # rest) s = run_calls rest (fst (onActionMessage h s))"
| "run_calls (Unsubscribe h # rest) s = run_calls rest (dispose (Disposable h) s)"
| "run_calls (Throw e # rest) s = (s, Some (HandlerFailure e))"

definition call_handler :: "behaviour \<Rightarrow> nat \<Rightarrow> string \<Rightarrow> NodeGLSPClient \<Rightarrow> NodeGLSPClient \<times> error option" where
  "call_handler beh handler message s = run_calls (beh handler message) s"

text \<open>
  \<open>forEach\<close> over an array that nothing else refers to: the copy made by the spread. The
  callback is called without a \<open>try\<close>, so the exception of a handler ends the loop and
  leaves it: the handlers after that one are not called.
\<close>

fun forEach :: "behaviour \<Rightarrow> string \<Rightarrow> nat list \<Rightarrow> NodeGLSPClient \<Rightarrow> NodeGLSPClient \<times> effect list \<times> error option" where
  "forEach beh message [] s = (s, [], None)"
| "forEach beh message (handler # rest) s =
     (case call_handler beh handler message s of
        (s1, Some e) \<Rightarrow> (s1, [Invoke handler message], Some e)
      | (s1, None) \<Rightarrow>
          (case forEach beh message rest s1 of
             (s2, effects, r) \<Rightarrow> (s2, Invoke handler message # effects, r)))"

text \<open>
  \<open>proxy.process(message)\<close>, the entry point for messages that come from the server. It
  returns normally (\<open>None\<close>) or throws what a handler threw.
\<close>

definition proxy_process :: "behaviour \<Rightarrow> string \<Rightarrow> NodeGLSPClient \<Rightarrow> NodeGLSPClient \<times> effect list \<times> error option" where
  "proxy_process beh message s =
     (if length (actionMessageHandlers s) = 0 then (s, [Warn message], None)
      else forEach beh message (actionMessageHandlers s) s)"

section \<open>Runs of a client\<close>

text \<open>
  Everything that can happen to a client: a call of one of its methods, the timer of
  \<open>start()\<close> firing, the queued callback of the race running, a message arriving at the
  proxy. A method of the client that throws leaves the client as it was; a dispatch that
  a handler ends with an exception keeps what the handlers did until then.
\<close>

datatype event =
    Call_start
  | Call_configureServer GLSPServer
  | Call_stop
  | Timer_fires
  | Run_microtask
  | Call_setStartupTimeout nat
  | Call_onActionMessage nat
  | Call_dispose nat
  | Proxy_process string
  | Call_sendActionMessage string
  | Call_initializeServer string
  | Call_initializeClientSession string
  | Call_disposeClientSession string
  | Call_shutdownServer

fun step :: "behaviour \<Rightarrow> event \<Rightarrow> NodeGLSPClient \<Rightarrow> NodeGLSPClient \<times> effect list" where
  "step beh Call_start s = (case start s of (s1, effects, p) \<Rightarrow> (s1, effects))"
| "step beh (Call_configureServer srv) s =
     (case configureServer srv s of Inl e \<Rightarrow> (s, []) | Inr s1 \<Rightarrow> (s1, []))"
| "step beh Call_stop s = (case stop s of (s1, effects, p) \<Rightarrow> (s1, effects))"
| "step beh Timer_fires s = timerFires s"
| "step beh Run_microtask s = microtask s"
| "step beh (Call_setStartupTimeout ms) s = (setStartupTimeout ms s, [])"
| "step beh (Call_onActionMessage h) s = (fst (onActionMessage h s), [])"
| "step beh (Call_dispose h) s = (dispose (Disposable h) s, [])"
| "step beh (Proxy_process message) s =
     (case proxy_process beh message s of (s1, effects, r) \<Rightarrow> (s1, effects))"
| "step beh (Call_sendActionMessage message) s = (s, snd (sendActionMessage message s))"
| "step beh (Call_initializeServer params) s = (s, snd (initializeServer params s))"
| "step beh (Call_initializeClientSession params) s = (s, snd (initializeClientSession params s))"
| "step beh (Call_disposeClientSession params) s = (s, snd (disposeClientSession params s))"
| "step beh Call_shutdownServer s = (s, snd (shutdownServer s))"

fun run :: "behaviour \<Rightarrow> event list \<Rightarrow> NodeGLSPClient \<Rightarrow> NodeGLSPClient \<times> effect list" where
  "run beh [] s = (s, [])"
| "run beh (e # es) s =
     (let (s1, effects1) = step beh e s;
          (s2, effects2) = run beh es s1
      in (s2, effects1 @ effects2))"

text \<open>The values assigned to \<open>state\<close> during a run, in order.\<close>

fun states_of :: "effect list \<Rightarrow> ClientState list" where
  "states_of [] = []"
| "states_of (SetState c # effects) = c # states_of effects"
| "states_of (_ # effects) = states_of effects"

text \<open>How often the server was asked to shut down during a run.\<close>

fun shutdown_calls :: "effect list \<Rightarrow> nat" where
  "shutdown_calls [] = 0"
| "shutdown_calls (Shutdown n # effects) = Suc (shutdown_calls effects)"
| "shutdown_calls (_ # effects) = shutdown_calls effects"

text \<open>The handlers invoked during a run, in order.\<close>

fun invoked :: "effect list \<Rightarrow> nat list" where
  "invoked [] = []"
| "invoked (Invoke h m # effects) = h # invoked effects"
| "invoked (_ # effects) = invoked effects"

text \<open>\<open>stop()\<close> called \<open>n\<close> times in a row; the promises are returned in call order.\<close>

fun stop_times :: "nat \<Rightarrow> NodeGLSPClient \<Rightarrow> NodeGLSPClient \<times> effect list \<times> promise list" where
  "stop_times 0 s = (s, [], [])"
| "stop_times (Suc n) s =
     (case stop s of
        (s1, effects1, p) \<Rightarrow>
          (case stop_times n s1 of
             (s2, effects2, ps) \<Rightarrow> (s2, effects1 @ effects2, p # ps)))"

text \<open>The transition graph of the lifecycle states as the specification draws it.\<close>

fun transition :: "ClientState \<Rightarrow> ClientState \<Rightarrow> bool" where
  "transition Initial Starting = True"
| "transition Starting Running = True"
| "transition Starting StartFailed = True"
| "transition Running Stopping = True"
| "transition Stopping Stopped = True"
| "transition Initial Stopping = True"
| "transition Starting Stopping = True"
| "transition StartFailed Stopping = True"
| "transition _ _ = False"

fun follows_graph :: "ClientState \<Rightarrow> ClientState list \<Rightarrow> bool" where
  "follows_graph c [] = True"
| "follows_graph c (d # ds) = (transition c d \<and> follows_graph d ds)"

text \<open>A client with every field but the \<open>serverDeferred\<close> cell.\<close>

definition without_gate :: "NodeGLSPClient \<Rightarrow> NodeGLSPClient" where
  "without_gate s = s\<lparr>serverDeferred := Unsettled\<rparr>"

text \<open>The client with the given id after the given events, counted from its construction.\<close>

definition session_after :: "behaviour \<Rightarrow> string \<Rightarrow> event list \<Rightarrow> NodeGLSPClient" where
  "session_after beh ident evs = fst (run beh evs (new_client ident))"

text \<open>
  Two servers to run the client against: one whose methods all return normally, and one
  whose \<open>shutdown()\<close> throws.
\<close>

definition quiet_server :: GLSPServer where
  "quiet_server =
     \<lparr> server_name = ''quiet'', srv_initialize = (\<lambda>params. Inr params),
       srv_initializeClientSession = (\<lambda>params. None),
       srv_disposeClientSession = (\<lambda>params. None),
       srv_shutdown = None,
       srv_process = (\<lambda>message. None) \<rparr>"

definition throwing_server :: GLSPServer where
  "throwing_server =
     \<lparr> server_name = ''faulty'', srv_initialize = (\<lambda>params. Inr params),
       srv_initializeClientSession = (\<lambda>params. None),
       srv_disposeClientSession = (\<lambda>params. None),
       srv_shutdown = Some ''shutdown failed'',
       srv_process = (\<lambda>message. None) \<rparr>"

text \<open>
  A client that was started and then given a server: \<open>start()\<close>, \<open>configureServer(srv)\<close>,
  and the callback of the race.
\<close>

definition started_client :: "GLSPServer \<Rightarrow> NodeGLSPClient" where
  "started_client srv =
     fst (run (\<lambda>h m. []) [Call_start, Call_configureServer srv, Run_microtask] (new_client ''c1''))"

text \<open>
  The three situations a client can be in with respect to its server: the start has not
  finished, it has succeeded, or it has failed.
\<close>

definition binding_inv :: "NodeGLSPClient \<Rightarrow> bool" where
  "binding_inv s \<longleftrightarrow>
     (server s = None \<and> onStartDeferred s = Unsettled \<and> race s \<noteq> Finished
        \<and> state s \<noteq> Running \<and> (state s \<noteq> Initial \<or> race s = NotRacing))
   \<or> (server s \<noteq> None \<and> onStartDeferred s = Resolved () \<and> race s = Finished
        \<and> state s \<noteq> Initial)
   \<or> (server s = None \<and> (\<exists>e. onStartDeferred s = Rejected e) \<and> race s = Finished
        \<and> state s \<noteq> Running \<and> state s \<noteq> Initial)"

text \<open>The exception that a handler's behaviour ends with, if it throws.\<close>

fun thrown :: "call list \<Rightarrow> string option" where
  "thrown [] = None"
| "thrown (Throw e # rest) = Some e"
| "thrown (_ # rest) = thrown rest"

text \<open>
  The handlers of an array that a round of delivery reaches: all of them up to and
  including the first one that throws.
\<close>

fun delivered :: "behaviour \<Rightarrow> string \<Rightarrow> nat list \<Rightarrow> nat list" where
  "delivered beh message [] = []"
| "delivered beh message (h # hs) =
     (case thrown (beh h message) of
        None \<Rightarrow> h # delivered beh message hs
      | Some e \<Rightarrow> [h])"

text \<open>Two handlers of which each unregisters the other one and then throws.\<close>

definition throwing_handlers :: behaviour where
  "throwing_handlers h message =
     (if h = 1 then [Unsubscribe 2, Throw ''handler failed'']
      else [Unsubscribe 1, Throw ''handler failed''])"

text \<open>
  Among the handlers of a list, \<open>h1\<close> and \<open>h2\<close> occur once each and \<open>h1\<close> comes first.
\<close>

definition in_order :: "nat \<Rightarrow> nat \<Rightarrow> nat list \<Rightarrow> bool" where
  "in_order h1 h2 hs \<longleftrightarrow> filter (\<lambda>h. h = h1 \<or> h = h2) hs = [h1, h2]"

text \<open>
  The changes of \<open>state\<close> that the code can make: the edges of the graph and, in
  addition, the two steps by which the callback of the start race leaves \<open>Stopped\<close>.
\<close>

definition transition_in_code :: "ClientState \<Rightarrow> ClientState \<Rightarrow> bool" where
  "transition_in_code c d \<longleftrightarrow>
     transition c d \<or> (c = Stopped \<and> (d = Running \<or> d = StartFailed))"

fun follows_code :: "ClientState \<Rightarrow> ClientState list \<Rightarrow> bool" where
  "follows_code c [] = True"
| "follows_code c (d # ds) = (transition_in_code c d \<and> follows_code d ds)"

text \<open>
  How far the start race has come, against \<open>state\<close>: no race yet, the race over, or a
  race that is running or decided with its callback still queued.
\<close>

definition race_inv :: "NodeGLSPClient \<Rightarrow> bool" where
  "race_inv s \<longleftrightarrow>
     (race s = NotRacing \<and> (state s = Initial \<or> state s = Stopped))
   \<or> (race s = Finished \<and> state s \<noteq> Initial \<and> state s \<noteq> Stopping)
   \<or> (race s \<noteq> NotRacing \<and> race s \<noteq> Finished \<and> (state s = Starting \<or> state s = Stopped))"

section \<open>Checked access to the server\<close>

text \<open>
  Claim C6. Each of the five operations that need the server (\<open>initializeServer\<close>,
  \<open>initializeClientSession\<close>, \<open>disposeClientSession\<close>, \<open>shutdownServer\<close>,
  \<open>sendActionMessage\<close>) fails with the error that names the \<open>Running\<close> state when the
  client is in any other state, and then nothing is forwarded to the server and the client
  is left as it was. In state \<open>Running\<close> without a server each fails with the different
  error that no server is configured.
\<close>

theorem server_operations_are_checked:
  "(state s \<noteq> Running \<longrightarrow>
      initializeServer params s = (Inl (NotRunning (options_id s)), [])
    \<and> initializeClientSession params s = (Inl (NotRunning (options_id s)), [])
    \<and> disposeClientSession params s = (Inl (NotRunning (options_id s)), [])
    \<and> shutdownServer s = (Inl (NotRunning (options_id s)), [])
    \<and> sendActionMessage message s = (Inl (NotRunning (options_id s)), [])
    \<and> step beh (Call_initializeServer params) s = (s, [])
    \<and> step beh (Call_initializeClientSession params) s = (s, [])
    \<and> step beh (Call_disposeClientSession params) s = (s, [])
    \<and> step beh Call_shutdownServer s = (s, [])
    \<and> step beh (Call_sendActionMessage message) s = (s, []))
 \<and> (state s = Running \<and> server s = None \<longrightarrow>
      initializeServer params s = (Inl (NoServerConfigured (options_id s)), [])
    \<and> initializeClientSession params s = (Inl (NoServerConfigured (options_id s)), [])
    \<and> disposeClientSession params s = (Inl (NoServerConfigured (options_id s)), [])
    \<and> shutdownServer s = (Inl (NoServerConfigured (options_id s)), [])
    \<and> sendActionMessage message s = (Inl (NoServerConfigured (options_id s)), []))
 \<and> NotRunning (options_id s) \<noteq> NoServerConfigured (options_id s)"
  by (simp add: initializeServer_def initializeClientSession_def disposeClientSession_def
      shutdownServer_def sendActionMessage_def checkedServer_def checkState_def)

theorem server_operations_are_checked_witness:
  "state (new_client ''c1'') \<noteq> Running
 \<and> sendActionMessage ''m'' (new_client ''c1'') = (Inl (NotRunning ''c1''), [])
 \<and> step (\<lambda>h m. []) (Call_sendActionMessage ''m'') (new_client ''c1'') = (new_client ''c1'', [])
 \<and> state ((new_client ''c1'')\<lparr>state := Running\<rparr>) = Running
 \<and> server ((new_client ''c1'')\<lparr>state := Running\<rparr>) = None
 \<and> initializeServer ''p'' ((new_client ''c1'')\<lparr>state := Running\<rparr>)
      = (Inl (NoServerConfigured ''c1''), [])"
  using server_operations_are_checked [of "new_client ''c1''" "''p''" "''m''" "\<lambda>h m. []"]
    server_operations_are_checked [of "(new_client ''c1'')\<lparr>state := Running\<rparr>" "''p''" "''m''" "\<lambda>h m. []"]
  by (simp add: new_client_def)

section \<open>Basic facts\<close>

lemmas lifecycle_defs = start_def configureServer_def microtask_def timerFires_def
  resolve_def reject_def

lemma started_client_eq:
  "started_client srv =
     \<lparr> options_id = ''c1'', state = Running, server = Some srv,
       serverDeferred = Resolved srv, onStartDeferred = Resolved (), onStopDeferred = Unsettled,
       startupTimeout = 1500, actionMessageHandlers = [],
       timer = Armed 1500, race = Finished \<rparr>"
  by (simp add: started_client_def new_client_def lifecycle_defs)

lemma resolve_settled: "d \<noteq> Unsettled \<Longrightarrow> resolve v d = d"
  by (cases d) (simp_all add: resolve_def)

text \<open>Handlers touch nothing but the handler array.\<close>

lemma forEach_Cons:
  "forEach beh m (h # rest) s =
     (if snd (call_handler beh h m s) \<noteq> None
      then (fst (call_handler beh h m s), [Invoke h m], snd (call_handler beh h m s))
      else (fst (forEach beh m rest (fst (call_handler beh h m s))),
            Invoke h m # fst (snd (forEach beh m rest (fst (call_handler beh h m s)))),
            snd (snd (forEach beh m rest (fst (call_handler beh h m s))))))"
  by (cases "call_handler beh h m s") (auto split: prod.splits option.splits)

declare forEach.simps(2) [simp del]

lemma run_calls_lifecycle:
  "state (fst (run_calls cs s)) = state s \<and> race (fst (run_calls cs s)) = race s
 \<and> server (fst (run_calls cs s)) = server s
 \<and> onStartDeferred (fst (run_calls cs s)) = onStartDeferred s
 \<and> onStopDeferred (fst (run_calls cs s)) = onStopDeferred s
 \<and> serverDeferred (fst (run_calls cs s)) = serverDeferred s"
  by (induction cs s rule: run_calls.induct) (simp_all add: onActionMessage_def)

lemma call_handler_lifecycle:
  "state (fst (call_handler beh h m s)) = state s \<and> race (fst (call_handler beh h m s)) = race s
 \<and> server (fst (call_handler beh h m s)) = server s
 \<and> onStartDeferred (fst (call_handler beh h m s)) = onStartDeferred s
 \<and> onStopDeferred (fst (call_handler beh h m s)) = onStopDeferred s
 \<and> serverDeferred (fst (call_handler beh h m s)) = serverDeferred s"
  by (simp add: call_handler_def run_calls_lifecycle)

lemma forEach_lifecycle:
  "state (fst (forEach beh m hs s)) = state s \<and> race (fst (forEach beh m hs s)) = race s
 \<and> server (fst (forEach beh m hs s)) = server s
 \<and> onStartDeferred (fst (forEach beh m hs s)) = onStartDeferred s
 \<and> onStopDeferred (fst (forEach beh m hs s)) = onStopDeferred s
 \<and> serverDeferred (fst (forEach beh m hs s)) = serverDeferred s"
  by (induction hs arbitrary: s) (simp_all add: forEach_Cons call_handler_lifecycle)

section \<open>Stopping\<close>

lemma stop_when_stopped:
  "state s = Stopped \<Longrightarrow> stop s = (s, [], Signal StoppedSignal)"
  by (simp add: stop_def)

lemma stop_times_stopped:
  "state s = Stopped \<Longrightarrow> stop_times n s = (s, [], replicate n (Signal StoppedSignal))"
  by (induction n) (simp_all add: stop_when_stopped)

lemma stop_first:
  assumes "state s \<noteq> Stopped" "state s \<noteq> Stopping" "onStopDeferred s = Unsettled"
  shows "\<exists>s1 effects p. stop s = (s1, effects, p) \<and> state s1 = Stopped
     \<and> onStopDeferred s1 = Resolved () \<and> server s1 = server s
     \<and> shutdown_calls effects = (if server s = None then 0 else 1)
     \<and> states_of effects = [Stopping, Stopped]
     \<and> p = (case server s of None \<Rightarrow> Fulfilled
            | Some srv \<Rightarrow> (case srv_shutdown srv of None \<Rightarrow> Fulfilled
                            | Some e \<Rightarrow> Failed (ServerFailure e)))"
  using assms
  by (auto simp add: stop_def stop_finally_def resolve_def split: option.splits)

text \<open>
  Claim C2, as the specification states it, fails: a running client whose server throws
  in \<open>shutdown()\<close> returns from \<open>stop()\<close> a promise that is rejected, not resolved.
\<close>

theorem stop_rejects_counterexample:
  "state (started_client throwing_server) = Running
 \<and> server (started_client throwing_server) = Some throwing_server
 \<and> srv_shutdown throwing_server = Some ''shutdown failed''
 \<and> snd (snd (stop (started_client throwing_server))) = Failed (ServerFailure ''shutdown failed'')
 \<and> outcome (fst (stop (started_client throwing_server)))
      (snd (snd (stop (started_client throwing_server)))) \<noteq> Resolved ()"
  by (simp add: started_client_eq throwing_server_def stop_def stop_finally_def outcome_def)

text \<open>
  Claim C2, amended. When the server of a client throws in \<open>shutdown()\<close>, the first call
  of \<open>stop()\<close> still runs to its end: the server is asked to shut down once, \<open>state\<close> goes
  to \<open>Stopping\<close> and then to \<open>Stopped\<close>, and the "stopped" signal is resolved. The failure
  is not swallowed: the promise returned by that call is rejected with it.
\<close>

theorem stop_with_failing_shutdown:
  assumes "state s \<noteq> Stopped" "state s \<noteq> Stopping"
    and "server s = Some srv" "srv_shutdown srv = Some e"
    and "onStopDeferred s = Unsettled"
  shows "\<exists>s1. stop s = (s1, [SetState Stopping, Shutdown (server_name srv), SetState Stopped],
                 Failed (ServerFailure e))
           \<and> outcome s1 (Failed (ServerFailure e)) = Rejected (ServerFailure e)
           \<and> state s1 = Stopped \<and> onStopDeferred s1 = Resolved ()
           \<and> outcome s1 (Signal StoppedSignal) = Resolved ()"
  using assms by (simp add: stop_def stop_finally_def outcome_def resolve_def)

theorem stop_with_failing_shutdown_witness:
  "state (started_client throwing_server) \<noteq> Stopped
 \<and> state (started_client throwing_server) \<noteq> Stopping
 \<and> server (started_client throwing_server) = Some throwing_server
 \<and> srv_shutdown throwing_server = Some ''shutdown failed''
 \<and> onStopDeferred (started_client throwing_server) = Unsettled
 \<and> (\<exists>s1. stop (started_client throwing_server)
            = (s1, [SetState Stopping, Shutdown (server_name throwing_server), SetState Stopped],
               Failed (ServerFailure ''shutdown failed''))
         \<and> outcome s1 (Failed (ServerFailure ''shutdown failed''))
            = Rejected (ServerFailure ''shutdown failed'')
         \<and> state s1 = Stopped \<and> onStopDeferred s1 = Resolved ()
         \<and> outcome s1 (Signal StoppedSignal) = Resolved ())"
proof -
  have h: "state (started_client throwing_server) \<noteq> Stopped"
    "state (started_client throwing_server) \<noteq> Stopping"
    "server (started_client throwing_server) = Some throwing_server"
    "srv_shutdown throwing_server = Some ''shutdown failed''"
    "onStopDeferred (started_client throwing_server) = Unsettled"
    by (simp_all add: started_client_eq throwing_server_def)
  show ?thesis
    using h stop_with_failing_shutdown [OF h] by blast
qed

text \<open>
  Claim C3, as the specification states it, fails: two calls of \<open>stop()\<close> on a running
  client whose server throws in \<open>shutdown()\<close> return promises with different outcomes,
  the first rejected and the second resolved.
\<close>

theorem stop_outcomes_differ_counterexample:
  "snd (snd (stop_times 2 (started_client throwing_server)))
     = [Failed (ServerFailure ''shutdown failed''), Signal StoppedSignal]
 \<and> outcome (fst (stop_times 2 (started_client throwing_server)))
      (Failed (ServerFailure ''shutdown failed'')) = Rejected (ServerFailure ''shutdown failed'')
 \<and> outcome (fst (stop_times 2 (started_client throwing_server))) (Signal StoppedSignal)
      = Resolved ()"
  by (simp add: numeral_2_eq_2 started_client_eq throwing_server_def stop_def stop_finally_def
      outcome_def resolve_def)

text \<open>
  Claim C3, amended. For every \<open>n\<close>, \<open>n + 1\<close> calls of \<open>stop()\<close> in a row on a client that
  is neither \<open>Stopping\<close> nor \<open>Stopped\<close> ask the server to shut down exactly once when a
  server is attached and never when none is. All calls after the first return the
  "stopped" signal, which is resolved; the first call returns a promise of its own, which
  is resolved as well unless \<open>shutdown()\<close> throws, and rejected with that failure if it
  does. The "stopped" signal is resolved by the first call; the later calls change
  nothing.
\<close>

theorem repeated_stop:
  assumes "state s \<noteq> Stopped" "state s \<noteq> Stopping" "onStopDeferred s = Unsettled"
  shows "\<exists>s1 effects p.
       stop_times (Suc n) s = (s1, effects, p # replicate n (Signal StoppedSignal))
     \<and> stop s = (s1, effects, p)
     \<and> shutdown_calls effects = (if server s = None then 0 else 1)
     \<and> p = (case server s of None \<Rightarrow> Fulfilled
            | Some srv \<Rightarrow> (case srv_shutdown srv of None \<Rightarrow> Fulfilled
                            | Some e \<Rightarrow> Failed (ServerFailure e)))
     \<and> (\<forall>q \<in> set (replicate n (Signal StoppedSignal)). outcome s1 q = Resolved ())
     \<and> ((\<forall>srv e. server s = Some srv \<longrightarrow> srv_shutdown srv \<noteq> Some e)
          \<longrightarrow> outcome s1 p = Resolved ())
     \<and> state s1 = Stopped \<and> onStopDeferred s1 = Resolved ()"
proof -
  from stop_first [OF assms] obtain s1 effects p where
    st: "stop s = (s1, effects, p)" and s1: "state s1 = Stopped" "onStopDeferred s1 = Resolved ()"
    and cnt: "shutdown_calls effects = (if server s = None then 0 else 1)"
    and p: "p = (case server s of None \<Rightarrow> Fulfilled
            | Some srv \<Rightarrow> (case srv_shutdown srv of None \<Rightarrow> Fulfilled
                            | Some e \<Rightarrow> Failed (ServerFailure e)))"
    by blast
  have "stop_times (Suc n) s = (s1, effects, p # replicate n (Signal StoppedSignal))"
    using st stop_times_stopped [OF s1(1), of n] by simp
  moreover have "(\<forall>srv e. server s = Some srv \<longrightarrow> srv_shutdown srv \<noteq> Some e)
      \<longrightarrow> outcome s1 p = Resolved ()"
    using p by (auto simp add: outcome_def split: option.splits)
  ultimately show ?thesis
    using st s1 cnt p by (simp add: outcome_def)
qed

theorem repeated_stop_witness:
  "state (started_client quiet_server) \<noteq> Stopped
 \<and> state (started_client quiet_server) \<noteq> Stopping
 \<and> onStopDeferred (started_client quiet_server) = Unsettled
 \<and> server (started_client quiet_server) = Some quiet_server
 \<and> srv_shutdown quiet_server = None
 \<and> (\<exists>s1 effects.
       stop_times (Suc 2) (started_client quiet_server)
         = (s1, effects, Fulfilled # replicate 2 (Signal StoppedSignal))
     \<and> shutdown_calls effects = 1
     \<and> (\<forall>q \<in> set (replicate 2 (Signal StoppedSignal)). outcome s1 q = Resolved ())
     \<and> state s1 = Stopped \<and> onStopDeferred s1 = Resolved ())"
proof -
  have h: "state (started_client quiet_server) \<noteq> Stopped"
    "state (started_client quiet_server) \<noteq> Stopping"
    "onStopDeferred (started_client quiet_server) = Unsettled"
    by (simp_all add: started_client_eq)
  have k: "server (started_client quiet_server) = Some quiet_server"
    "srv_shutdown quiet_server = None"
    by (simp_all add: started_client_eq quiet_server_def)
  from repeated_stop [OF h, of 2] obtain s1 effects p where
    r: "stop_times (Suc 2) (started_client quiet_server)
         = (s1, effects, p # replicate 2 (Signal StoppedSignal))"
      "shutdown_calls effects = (if server (started_client quiet_server) = None then 0 else 1)"
      "p = (case server (started_client quiet_server) of None \<Rightarrow> Fulfilled
            | Some srv \<Rightarrow> (case srv_shutdown srv of None \<Rightarrow> Fulfilled
                            | Some e \<Rightarrow> Failed (ServerFailure e)))"
      "\<forall>q \<in> set (replicate 2 (Signal StoppedSignal)). outcome s1 q = Resolved ()"
      "state s1 = Stopped" "onStopDeferred s1 = Resolved ()"
    by blast
  have "p = Fulfilled" "shutdown_calls effects = 1"
    using r(2,3) k by simp_all
  then show ?thesis
    using h k r by blast
qed

section \<open>The server-attached gate\<close>

text \<open>
  Once a client has left \<open>Initial\<close> and its race is decided, \<open>serverDeferred\<close> is never
  read again: two clients that differ in that cell only produce the same effects and stay
  equal in every other field, whatever happens to them.
\<close>

lemma run_calls_gate:
  "run_calls cs (s\<lparr>serverDeferred := d\<rparr>)
     = ((fst (run_calls cs s))\<lparr>serverDeferred := d\<rparr>, snd (run_calls cs s))"
proof (induction cs s rule: run_calls.induct)
  case (1 s)
  then show ?case by simp
next
  case (2 h rest s)
  have "fst (onActionMessage h (s\<lparr>serverDeferred := d\<rparr>))
      = (fst (onActionMessage h s))\<lparr>serverDeferred := d\<rparr>"
    by (simp add: onActionMessage_def)
  then show ?case using "2.IH" by (simp only: run_calls.simps)
next
  case (3 h rest s)
  have "dispose (Disposable h) (s\<lparr>serverDeferred := d\<rparr>)
      = (dispose (Disposable h) s)\<lparr>serverDeferred := d\<rparr>"
    by simp
  then show ?case using "3.IH" by (simp only: run_calls.simps)
next
  case (4 e rest s)
  then show ?case by simp
qed

lemma call_handler_gate:
  "call_handler beh h m (s\<lparr>serverDeferred := d\<rparr>)
     = ((fst (call_handler beh h m s))\<lparr>serverDeferred := d\<rparr>, snd (call_handler beh h m s))"
  by (simp add: call_handler_def run_calls_gate)

lemma forEach_gate:
  "forEach beh m hs (s\<lparr>serverDeferred := d\<rparr>)
     = ((fst (forEach beh m hs s))\<lparr>serverDeferred := d\<rparr>, snd (forEach beh m hs s))"
  by (induction hs arbitrary: s) (simp_all add: forEach_Cons call_handler_gate)

lemma without_gate_eqD:
  assumes "without_gate s = without_gate t"
  shows "t = s\<lparr>serverDeferred := serverDeferred t\<rparr>"
proof -
  have "(without_gate s)\<lparr>serverDeferred := serverDeferred t\<rparr>
          = (without_gate t)\<lparr>serverDeferred := serverDeferred t\<rparr>"
    using assms by simp
  then show ?thesis by (simp add: without_gate_def)
qed

lemma step_gate:
  assumes "state s \<noteq> Initial" "race s \<noteq> Racing"
  shows "without_gate (fst (step beh ev (s\<lparr>serverDeferred := d\<rparr>))) = without_gate (fst (step beh ev s))
       \<and> snd (step beh ev (s\<lparr>serverDeferred := d\<rparr>)) = snd (step beh ev s)"
proof (cases ev)
  case Call_start
  then show ?thesis using assms by (simp add: start_def without_gate_def)
next
  case (Call_configureServer srv)
  then show ?thesis using assms
    by (cases "race s") (simp_all add: configureServer_def without_gate_def)
next
  case Call_stop
  then show ?thesis
    by (simp add: stop_def stop_finally_def Let_def without_gate_def split: option.splits)
next
  case Timer_fires
  then show ?thesis using assms
    by (cases "race s"; cases "timer s") (simp_all add: timerFires_def without_gate_def)
next
  case Run_microtask
  then show ?thesis
    by (cases "race s") (simp_all add: microtask_def without_gate_def)
next
  case (Proxy_process m)
  then show ?thesis
    by (simp add: proxy_process_def forEach_gate without_gate_def split_def)
next
  case (Call_sendActionMessage m)
  then show ?thesis
    by (simp add: sendActionMessage_def checkedServer_def checkState_def without_gate_def
        split: option.splits sum.splits)
next
  case (Call_initializeServer p)
  then show ?thesis
    by (simp add: initializeServer_def checkedServer_def checkState_def without_gate_def
        split: option.splits sum.splits)
next
  case (Call_initializeClientSession p)
  then show ?thesis
    by (simp add: initializeClientSession_def checkedServer_def checkState_def without_gate_def
        split: option.splits sum.splits)
next
  case (Call_disposeClientSession p)
  then show ?thesis
    by (simp add: disposeClientSession_def checkedServer_def checkState_def without_gate_def
        split: option.splits sum.splits)
next
  case Call_shutdownServer
  then show ?thesis
    by (simp add: shutdownServer_def checkedServer_def checkState_def without_gate_def
        split: option.splits sum.splits)
qed (simp_all add: setStartupTimeout_def onActionMessage_def without_gate_def)

lemma step_started:
  assumes "state s \<noteq> Initial" "race s \<noteq> Racing"
  shows "state (fst (step beh ev s)) \<noteq> Initial \<and> race (fst (step beh ev s)) \<noteq> Racing"
proof (cases ev)
  case Call_start
  then show ?thesis using assms by (simp add: start_def)
next
  case (Call_configureServer srv)
  then show ?thesis using assms
    by (cases "race s") (simp_all add: configureServer_def)
next
  case Call_stop
  then show ?thesis using assms
    by (simp add: stop_def stop_finally_def Let_def split: option.splits)
next
  case Timer_fires
  then show ?thesis using assms
    by (cases "race s"; cases "timer s") (simp_all add: timerFires_def)
next
  case Run_microtask
  then show ?thesis using assms
    by (cases "race s") (simp_all add: microtask_def)
next
  case (Proxy_process m)
  then show ?thesis using assms
    by (simp add: proxy_process_def forEach_lifecycle split_def)
qed (simp_all add: assms setStartupTimeout_def onActionMessage_def)

lemma run_gate:
  assumes "state s \<noteq> Initial" "race s \<noteq> Racing"
  shows "without_gate (fst (run beh evs (s\<lparr>serverDeferred := d\<rparr>))) = without_gate (fst (run beh evs s))
       \<and> snd (run beh evs (s\<lparr>serverDeferred := d\<rparr>)) = snd (run beh evs s)"
  using assms
proof (induction evs arbitrary: s d)
  case Nil
  then show ?case by (simp add: without_gate_def)
next
  case (Cons ev evs)
  let ?s1 = "fst (step beh ev s)" and ?t1 = "fst (step beh ev (s\<lparr>serverDeferred := d\<rparr>))"
  have g: "without_gate ?t1 = without_gate ?s1"
    and e: "snd (step beh ev (s\<lparr>serverDeferred := d\<rparr>)) = snd (step beh ev s)"
    using step_gate [OF Cons.prems] by auto
  have st: "state ?s1 \<noteq> Initial" "race ?s1 \<noteq> Racing"
    using step_started [OF Cons.prems] by auto
  have t1: "?t1 = ?s1\<lparr>serverDeferred := serverDeferred ?t1\<rparr>"
    using without_gate_eqD [OF g [symmetric]] .
  have "without_gate (fst (run beh evs ?t1)) = without_gate (fst (run beh evs ?s1))
      \<and> snd (run beh evs ?t1) = snd (run beh evs ?s1)"
    using Cons.IH [OF st, of "serverDeferred ?t1"] t1 by simp
  then show ?case
    using e by (simp add: split_def Let_def)
qed


lemma step_settled:
  assumes "serverDeferred s \<noteq> Unsettled" "race s \<noteq> Racing"
  shows "serverDeferred (fst (step beh ev s)) \<noteq> Unsettled \<and> race (fst (step beh ev s)) \<noteq> Racing"
proof (cases ev)
  case Call_start
  then show ?thesis using assms by (cases "serverDeferred s") (simp_all add: start_def)
next
  case (Call_configureServer srv)
  then show ?thesis using assms
    by (cases "race s"; cases "serverDeferred s") (simp_all add: configureServer_def resolve_def)
next
  case Call_stop
  then show ?thesis using assms
    by (simp add: stop_def stop_finally_def Let_def split: option.splits)
next
  case Timer_fires
  then show ?thesis using assms
    by (cases "race s"; cases "timer s") (simp_all add: timerFires_def)
next
  case Run_microtask
  then show ?thesis using assms
    by (cases "race s") (simp_all add: microtask_def)
next
  case (Proxy_process m)
  then show ?thesis using assms
    by (simp add: proxy_process_def forEach_lifecycle split_def)
qed (simp_all add: assms setStartupTimeout_def onActionMessage_def)

lemma run_settled:
  assumes "serverDeferred s \<noteq> Unsettled" "race s \<noteq> Racing"
  shows "serverDeferred (fst (run beh evs s)) \<noteq> Unsettled \<and> race (fst (run beh evs s)) \<noteq> Racing"
  using assms
proof (induction evs arbitrary: s)
  case Nil
  then show ?case by simp
next
  case (Cons ev evs)
  have "serverDeferred (fst (step beh ev s)) \<noteq> Unsettled" "race (fst (step beh ev s)) \<noteq> Racing"
    using step_settled [OF Cons.prems] by auto
  from Cons.IH [OF this] show ?case
    by (simp add: split_def Let_def)
qed

lemma configureServer_again:
  assumes "state s \<noteq> Running" "serverDeferred s \<noteq> Unsettled" "race s \<noteq> Racing"
  shows "configureServer srv s = Inr s"
proof -
  have r: "(case race s of Racing \<Rightarrow> (case serverDeferred s of Unsettled \<Rightarrow> Won srv
                                         | Resolved v \<Rightarrow> Won v
                                         | Rejected e \<Rightarrow> Lost e)
                            | r \<Rightarrow> r) = race s"
    using assms(3) by (cases "race s") simp_all
  have "s\<lparr>serverDeferred := serverDeferred s, race := race s\<rparr> = s"
    by simp
  then show ?thesis
    unfolding configureServer_def r resolve_settled [OF assms(2)] using assms(1) by simp
qed

lemma configureServer_settled:
  assumes "serverDeferred s \<noteq> Unsettled" "race s \<noteq> Racing"
  shows "step beh (Call_configureServer srv) s = (s, [])"
proof (cases "state s = Running")
  case True
  then show ?thesis by (simp add: configureServer_def)
next
  case False
  then show ?thesis using configureServer_again [OF False assms] by simp
qed

lemma configureServer_settles:
  assumes "configureServer srv s = Inr s1"
  shows "serverDeferred s1 \<noteq> Unsettled \<and> race s1 \<noteq> Racing"
  using assms
  by (cases "race s"; cases "serverDeferred s")
     (auto simp add: configureServer_def resolve_def split: if_splits)




lemma late_configureServer:
  assumes "state s \<noteq> Initial" "race s \<noteq> Racing" "state s \<noteq> Running"
  shows "without_gate (fst (run beh (Call_configureServer srv # evs) s)) = without_gate (fst (run beh evs s))
       \<and> snd (run beh (Call_configureServer srv # evs) s) = snd (run beh evs s)"
proof -
  have c: "step beh (Call_configureServer srv) s = (s\<lparr>serverDeferred := resolve srv (serverDeferred s)\<rparr>, [])"
    using assms by (cases "race s") (simp_all add: configureServer_def)
  have "run beh (Call_configureServer srv # evs) s
          = run beh evs (s\<lparr>serverDeferred := resolve srv (serverDeferred s)\<rparr>)"
    by (simp only: run.simps c) (simp add: split_def)
  then show ?thesis
    using run_gate [OF assms(1,2), of beh evs "resolve srv (serverDeferred s)"] by simp
qed

lemma after_timeout:
  assumes "state s = Initial" "serverDeferred s = Unsettled" "onStartDeferred s = Unsettled"
  shows "state (fst (run beh [Call_start, Timer_fires] s)) = StartFailed"
    and "race (fst (run beh [Call_start, Timer_fires] s)) = Finished"
    and "serverDeferred (fst (run beh [Call_start, Timer_fires] s)) = Unsettled"
  using assms by (simp_all add: lifecycle_defs)

section \<open>Starting\<close>

text \<open>
  Claim C4. \<open>start()\<close> on a client that is not in state \<open>Initial\<close> returns the "started"
  signal and changes nothing. On a client in state \<open>Initial\<close> it sets \<open>Starting\<close> and arms
  the timer. If \<open>configureServer\<close> resolves the gate before the timer fires (or had resolved
  it before \<open>start()\<close>), the callback of the race stores the server, sets \<open>Running\<close> and
  resolves the "started" signal, and a timer that fires later changes nothing. If the timer
  fires first, \<open>state\<close> becomes \<open>StartFailed\<close> and the "started" signal is rejected with the
  startup-timeout error.
\<close>

theorem start_races_attachment_against_deadline:
  "(state s \<noteq> Initial \<longrightarrow> start s = (s, [], Signal StartedSignal))
 \<and> (state s = Initial \<longrightarrow>
      state (fst (start s)) = Starting
    \<and> timer (fst (start s)) = Armed (startupTimeout s)
    \<and> snd (start s) = ([SetState Starting], Signal StartedSignal))
 \<and> (state s = Initial \<and> serverDeferred s = Unsettled \<and> onStartDeferred s = Unsettled \<longrightarrow>
      (\<exists>s3. run beh [Call_start, Call_configureServer srv, Run_microtask] s
               = (s3, [SetState Starting, SetState Running])
          \<and> server s3 = Some srv \<and> state s3 = Running
          \<and> outcome s3 (Signal StartedSignal) = Resolved ()
          \<and> run beh [Call_start, Call_configureServer srv, Run_microtask, Timer_fires] s
               = (s3\<lparr>timer := Fired\<rparr>, [SetState Starting, SetState Running]))
    \<and> (\<exists>s2. run beh [Call_start, Timer_fires] s
               = (s2, [SetState Starting, SetState StartFailed])
          \<and> server s2 = server s \<and> state s2 = StartFailed
          \<and> outcome s2 (Signal StartedSignal) = Rejected StartupTimeout))
 \<and> (state s = Initial \<and> serverDeferred s = Resolved srv \<and> onStartDeferred s = Unsettled \<longrightarrow>
      (\<exists>s2. run beh [Call_start, Run_microtask] s = (s2, [SetState Starting, SetState Running])
          \<and> server s2 = Some srv \<and> state s2 = Running
          \<and> outcome s2 (Signal StartedSignal) = Resolved ()))"
  by (simp add: lifecycle_defs outcome_def)

theorem start_races_attachment_against_deadline_witness:
  "state (new_client ''c1'') = Initial
 \<and> serverDeferred (new_client ''c1'') = Unsettled
 \<and> onStartDeferred (new_client ''c1'') = Unsettled
 \<and> (\<exists>s3. run (\<lambda>h m. []) [Call_start, Call_configureServer quiet_server, Run_microtask]
               (new_client ''c1'') = (s3, [SetState Starting, SetState Running])
          \<and> server s3 = Some quiet_server \<and> state s3 = Running
          \<and> outcome s3 (Signal StartedSignal) = Resolved ())
 \<and> (\<exists>s2. run (\<lambda>h m. []) [Call_start, Timer_fires] (new_client ''c1'')
               = (s2, [SetState Starting, SetState StartFailed])
          \<and> state s2 = StartFailed
          \<and> outcome s2 (Signal StartedSignal) = Rejected StartupTimeout)
 \<and> state (started_client quiet_server) \<noteq> Initial
 \<and> start (started_client quiet_server) = (started_client quiet_server, [], Signal StartedSignal)"
proof -
  have h: "state (new_client ''c1'') = Initial"
    "serverDeferred (new_client ''c1'') = Unsettled"
    "onStartDeferred (new_client ''c1'') = Unsettled"
    by (simp_all add: new_client_def)
  have k: "state (started_client quiet_server) \<noteq> Initial"
    by (simp add: started_client_eq)
  show ?thesis
    using h k
      start_races_attachment_against_deadline [of "new_client ''c1''" "\<lambda>h m. []" quiet_server]
      start_races_attachment_against_deadline [of "started_client quiet_server" "\<lambda>h m. []" quiet_server]
    by blast
qed

section \<open>Attaching the server\<close>

text \<open>
  Claim C5. \<open>configureServer\<close> throws exactly when \<open>state\<close> is \<open>Running\<close>. Of several calls
  the first one settles the gate with its server; every later call, at any later moment,
  leaves the client as it is. After the timer has fired on a client that was waiting for
  its server, \<open>state\<close> is \<open>StartFailed\<close> and a call of \<open>configureServer\<close> stores its
  server in the gate and does nothing else: whatever happens afterwards, the effects and
  every field of the client other than the gate are the same as without the call.
\<close>

theorem configureServer_usage:
  "((\<exists>e. configureServer srv s = Inl e) \<longleftrightarrow> state s = Running)
 \<and> (state s = Running \<longrightarrow> configureServer srv s = Inl AlreadyRunning)
 \<and> (\<forall>s1. configureServer srv s = Inr s1 \<longrightarrow>
        (serverDeferred s = Unsettled \<longrightarrow> serverDeferred s1 = Resolved srv)
      \<and> configureServer other s1 = Inr s1
      \<and> (\<forall>evs. step beh (Call_configureServer other) (fst (run beh evs s1))
                  = (fst (run beh evs s1), [])))
 \<and> (state s = Initial \<and> serverDeferred s = Unsettled \<and> onStartDeferred s = Unsettled \<longrightarrow>
        state (fst (run beh [Call_start, Timer_fires] s)) = StartFailed
      \<and> configureServer srv (fst (run beh [Call_start, Timer_fires] s))
           = Inr ((fst (run beh [Call_start, Timer_fires] s))\<lparr>serverDeferred := Resolved srv\<rparr>)
      \<and> (\<forall>evs. without_gate (fst (run beh (Call_configureServer srv # evs)
                                     (fst (run beh [Call_start, Timer_fires] s))))
                  = without_gate (fst (run beh evs (fst (run beh [Call_start, Timer_fires] s))))
               \<and> snd (run beh (Call_configureServer srv # evs)
                                     (fst (run beh [Call_start, Timer_fires] s)))
                  = snd (run beh evs (fst (run beh [Call_start, Timer_fires] s)))))"
proof (intro conjI)
  show "(\<exists>e. configureServer srv s = Inl e) \<longleftrightarrow> state s = Running"
    by (simp add: configureServer_def)
  show "state s = Running \<longrightarrow> configureServer srv s = Inl AlreadyRunning"
    by (simp add: configureServer_def)
  show "\<forall>s1. configureServer srv s = Inr s1 \<longrightarrow>
        (serverDeferred s = Unsettled \<longrightarrow> serverDeferred s1 = Resolved srv)
      \<and> configureServer other s1 = Inr s1
      \<and> (\<forall>evs. step beh (Call_configureServer other) (fst (run beh evs s1))
                  = (fst (run beh evs s1), []))"
  proof (intro allI impI conjI)
    fix s1 assume c: "configureServer srv s = Inr s1"
    then show "serverDeferred s1 = Resolved srv" if "serverDeferred s = Unsettled"
      using that by (auto simp add: configureServer_def resolve_def split: if_splits)
    have settled: "serverDeferred s1 \<noteq> Unsettled" "race s1 \<noteq> Racing"
      using configureServer_settles [OF c] by auto
    have "state s1 \<noteq> Running"
      using c by (auto simp add: configureServer_def split: if_splits)
    then show "configureServer other s1 = Inr s1"
      using settled by (rule configureServer_again)
    show "step beh (Call_configureServer other) (fst (run beh evs s1)) = (fst (run beh evs s1), [])" for evs
      using run_settled [OF settled, of beh evs] configureServer_settled by blast
  qed
  show "state s = Initial \<and> serverDeferred s = Unsettled \<and> onStartDeferred s = Unsettled \<longrightarrow>
        state (fst (run beh [Call_start, Timer_fires] s)) = StartFailed
      \<and> configureServer srv (fst (run beh [Call_start, Timer_fires] s))
           = Inr ((fst (run beh [Call_start, Timer_fires] s))\<lparr>serverDeferred := Resolved srv\<rparr>)
      \<and> (\<forall>evs. without_gate (fst (run beh (Call_configureServer srv # evs)
                                     (fst (run beh [Call_start, Timer_fires] s))))
                  = without_gate (fst (run beh evs (fst (run beh [Call_start, Timer_fires] s))))
               \<and> snd (run beh (Call_configureServer srv # evs)
                                     (fst (run beh [Call_start, Timer_fires] s)))
                  = snd (run beh evs (fst (run beh [Call_start, Timer_fires] s))))"
  proof (intro impI)
    assume a: "state s = Initial \<and> serverDeferred s = Unsettled \<and> onStartDeferred s = Unsettled"
    let ?s2 = "fst (run beh [Call_start, Timer_fires] s)"
    have s2: "state ?s2 = StartFailed" "race ?s2 = Finished" "serverDeferred ?s2 = Unsettled"
      using a by (simp_all add: lifecycle_defs)
    have c: "configureServer srv ?s2 = Inr (?s2\<lparr>serverDeferred := Resolved srv\<rparr>)"
      using s2 by (simp add: configureServer_def resolve_def)
    have g: "without_gate (fst (run beh evs (?s2\<lparr>serverDeferred := Resolved srv\<rparr>)))
               = without_gate (fst (run beh evs ?s2))
           \<and> snd (run beh evs (?s2\<lparr>serverDeferred := Resolved srv\<rparr>)) = snd (run beh evs ?s2)" for evs
      using run_gate [of ?s2 beh evs "Resolved srv"] s2 by simp
    show "state ?s2 = StartFailed
      \<and> configureServer srv ?s2 = Inr (?s2\<lparr>serverDeferred := Resolved srv\<rparr>)
      \<and> (\<forall>evs. without_gate (fst (run beh (Call_configureServer srv # evs) ?s2))
                  = without_gate (fst (run beh evs ?s2))
               \<and> snd (run beh (Call_configureServer srv # evs) ?s2) = snd (run beh evs ?s2))"
      using s2(1) c g by (simp add: split_def Let_def)
  qed
qed

theorem configureServer_usage_witness:
  "state (started_client quiet_server) = Running
 \<and> configureServer throwing_server (started_client quiet_server) = Inl AlreadyRunning
 \<and> state (new_client ''c1'') = Initial
 \<and> serverDeferred (new_client ''c1'') = Unsettled
 \<and> onStartDeferred (new_client ''c1'') = Unsettled
 \<and> state (fst (run (\<lambda>h m. []) [Call_start, Timer_fires] (new_client ''c1''))) = StartFailed
 \<and> state (fst (run (\<lambda>h m. []) [Call_configureServer quiet_server, Run_microtask]
                 (fst (run (\<lambda>h m. []) [Call_start, Timer_fires] (new_client ''c1'')))))
      = StartFailed"
proof -
  have h: "state (new_client ''c1'') = Initial"
    "serverDeferred (new_client ''c1'') = Unsettled"
    "onStartDeferred (new_client ''c1'') = Unsettled"
    by (simp_all add: new_client_def)
  have k: "state (started_client quiet_server) = Running"
    by (simp add: started_client_eq)
  note t = configureServer_usage [of quiet_server "new_client ''c1''" quiet_server "\<lambda>h m. []"]
  have a: "state (fst (run (\<lambda>h m. []) [Call_start, Timer_fires] (new_client ''c1''))) = StartFailed"
    using t h by blast
  have "without_gate (fst (run (\<lambda>h m. []) (Call_configureServer quiet_server # [Run_microtask])
                 (fst (run (\<lambda>h m. []) [Call_start, Timer_fires] (new_client ''c1'')))))
      = without_gate (fst (run (\<lambda>h m. []) [Run_microtask]
                 (fst (run (\<lambda>h m. []) [Call_start, Timer_fires] (new_client ''c1'')))))"
    using t h by blast
  then have "state (without_gate (fst (run (\<lambda>h m. []) [Call_configureServer quiet_server, Run_microtask]
                 (fst (run (\<lambda>h m. []) [Call_start, Timer_fires] (new_client ''c1''))))))
      = state (without_gate (fst (run (\<lambda>h m. []) [Run_microtask]
                 (fst (run (\<lambda>h m. []) [Call_start, Timer_fires] (new_client ''c1''))))))"
    by simp
  moreover have "state (fst (run (\<lambda>h m. []) [Run_microtask]
                 (fst (run (\<lambda>h m. []) [Call_start, Timer_fires] (new_client ''c1'')))))
      = StartFailed"
    by (simp add: new_client_def lifecycle_defs)
  ultimately have b: "state (fst (run (\<lambda>h m. []) [Call_configureServer quiet_server, Run_microtask]
                 (fst (run (\<lambda>h m. []) [Call_start, Timer_fires] (new_client ''c1'')))))
      = StartFailed"
    by (simp add: without_gate_def)
  show ?thesis
    using h k a b configureServer_usage [of throwing_server "started_client quiet_server"]
    by blast
qed

section \<open>The lifecycle as a whole\<close>

text \<open>
  Claim C1, evaluated. \<open>start()\<close>, then \<open>stop()\<close>, then \<open>configureServer(server)\<close>: the
  call of \<open>stop()\<close> does not settle the race, so the server resolves it and its callback
  assigns \<open>Running\<close> to a client that is \<open>Stopped\<close>. The values of \<open>state\<close> are
  \<open>Starting\<close>, \<open>Stopping\<close>, \<open>Stopped\<close>, \<open>Running\<close>, and the last step is not an edge of the
  transition graph. In the same way the timer takes a stopped client to \<open>StartFailed\<close>.
\<close>

theorem stopped_client_becomes_running:
  "states_of (snd (run (\<lambda>h m. [])
       [Call_start, Call_stop, Call_configureServer quiet_server, Run_microtask]
       (new_client ''c1'')))
     = [Starting, Stopping, Stopped, Running]
 \<and> state (session_after (\<lambda>h m. [])  ''c1''
       [Call_start, Call_stop, Call_configureServer quiet_server, Run_microtask]) = Running
 \<and> \<not> transition Stopped Running
 \<and> \<not> follows_graph Initial (states_of (snd (run (\<lambda>h m. [])
       [Call_start, Call_stop, Call_configureServer quiet_server, Run_microtask]
       (new_client ''c1''))))
 \<and> states_of (snd (run (\<lambda>h m. []) [Call_start, Call_stop, Timer_fires] (new_client ''c1'')))
     = [Starting, Stopping, Stopped, StartFailed]
 \<and> \<not> transition Stopped StartFailed"
  by (simp add: session_after_def new_client_def lifecycle_defs stop_def stop_finally_def)

section \<open>The server reference\<close>

text \<open>
  Claim C7, as the specification states it, fails: after a successful start and a call of
  \<open>stop()\<close> the client is \<open>Stopped\<close> and still refers to its server.
\<close>

theorem binding_stays_after_stop_counterexample:
  "onStartDeferred (started_client quiet_server) = Resolved ()
 \<and> state (fst (stop (started_client quiet_server))) = Stopped
 \<and> server (fst (stop (started_client quiet_server))) = Some quiet_server
 \<and> server (fst (stop (started_client quiet_server))) \<noteq> None"
  by (simp add: started_client_eq quiet_server_def stop_def stop_finally_def)

lemma binding_inv_new: "binding_inv (new_client ident)"
  by (simp add: binding_inv_def new_client_def)

lemma binding_inv_step:
  assumes "binding_inv s"
  shows "binding_inv (fst (step beh ev s))"
proof (cases ev)
  case Call_start
  then show ?thesis using assms unfolding binding_inv_def
    by (cases "serverDeferred s") (auto simp add: start_def)
next
  case (Call_configureServer srv)
  then show ?thesis using assms unfolding binding_inv_def
    by (cases "race s"; cases "serverDeferred s") (auto simp add: configureServer_def)
next
  case Call_stop
  then show ?thesis using assms unfolding binding_inv_def
    by (auto simp add: stop_def stop_finally_def Let_def split: option.splits)
next
  case Timer_fires
  then show ?thesis using assms unfolding binding_inv_def
    by (cases "race s"; cases "timer s")
       (auto simp add: timerFires_def microtask_def reject_def)
next
  case Run_microtask
  then show ?thesis using assms unfolding binding_inv_def
    by (cases "race s") (auto simp add: microtask_def resolve_def reject_def)
next
  case (Proxy_process m)
  then show ?thesis using assms unfolding binding_inv_def
    by (simp add: proxy_process_def forEach_lifecycle split_def)
next
  case (Call_setStartupTimeout ms)
  then show ?thesis using assms unfolding binding_inv_def
    by (simp add: setStartupTimeout_def)
next
  case (Call_onActionMessage h)
  then show ?thesis using assms unfolding binding_inv_def
    by (simp add: onActionMessage_def)
next
  case (Call_dispose h)
  then show ?thesis using assms unfolding binding_inv_def
    by simp
qed (simp_all add: assms)


lemma binding_inv_run:
  "binding_inv s \<Longrightarrow> binding_inv (fst (run beh evs s))"
proof (induction evs arbitrary: s)
  case Nil
  then show ?case by simp
next
  case (Cons ev evs)
  from Cons.IH [OF binding_inv_step [OF Cons.prems, of beh ev]] show ?case
    by (simp add: split_def Let_def)
qed

lemma server_kept_step:
  assumes "binding_inv s" "server s = Some srv"
  shows "server (fst (step beh ev s)) = Some srv"
proof -
  have f: "race s = Finished" using assms unfolding binding_inv_def by auto
  show ?thesis
  proof (cases ev)
    case Call_start
    then show ?thesis using assms by (simp add: start_def)
  next
    case (Call_configureServer x)
    then show ?thesis using assms by (simp add: configureServer_def)
  next
    case Call_stop
    then show ?thesis using assms
      by (simp add: stop_def stop_finally_def Let_def split: option.splits)
  next
    case Timer_fires
    then show ?thesis using assms f
      by (cases "timer s") (simp_all add: timerFires_def)
  next
    case Run_microtask
    then show ?thesis using assms f by (simp add: microtask_def)
  next
    case (Proxy_process m)
    then show ?thesis using assms
      by (simp add: proxy_process_def forEach_lifecycle split_def)
  qed (simp_all add: assms setStartupTimeout_def onActionMessage_def)
qed

lemma server_kept_run:
  "binding_inv s \<Longrightarrow> server s = Some srv \<Longrightarrow> server (fst (run beh evs s)) = Some srv"
proof (induction evs arbitrary: s)
  case Nil
  then show ?case by simp
next
  case (Cons ev evs)
  from Cons.IH [OF binding_inv_step [OF Cons.prems(1), of beh ev]
      server_kept_step [OF Cons.prems, of beh ev]]
  show ?case by (simp add: split_def Let_def)
qed

text \<open>
  Claim C7, amended. At every moment of a client's life the server reference is set if
  and only if the start has succeeded (the "started" signal is resolved); it is set
  whenever \<open>state\<close> is \<open>Running\<close>; once set it keeps its value through everything that
  happens later, and \<open>stop()\<close> in particular leaves it as it is, so it is set in state
  \<open>Stopping\<close> and stays set in state \<open>Stopped\<close>.
\<close>

theorem binding_present_after_successful_start:
  "(server (session_after beh ident evs) \<noteq> None
      \<longleftrightarrow> onStartDeferred (session_after beh ident evs) = Resolved ())
 \<and> (state (session_after beh ident evs) = Running
      \<longrightarrow> server (session_after beh ident evs) \<noteq> None)
 \<and> (\<forall>srv later. server (session_after beh ident evs) = Some srv
      \<longrightarrow> server (fst (run beh later (session_after beh ident evs))) = Some srv)
 \<and> server (fst (stop (session_after beh ident evs))) = server (session_after beh ident evs)"
proof -
  have inv: "binding_inv (session_after beh ident evs)"
    unfolding session_after_def by (rule binding_inv_run [OF binding_inv_new])
  have "server (fst (stop s)) = server s" for s
    by (simp add: stop_def stop_finally_def Let_def split: option.splits)
  then show ?thesis
    using inv server_kept_run [OF inv] unfolding binding_inv_def by auto
qed

theorem binding_present_after_successful_start_witness:
  "state (session_after (\<lambda>h m. []) ''c1'' [Call_start, Call_configureServer quiet_server, Run_microtask]) = Running
 \<and> server (session_after (\<lambda>h m. []) ''c1'' [Call_start, Call_configureServer quiet_server, Run_microtask])
      = Some quiet_server
 \<and> onStartDeferred (session_after (\<lambda>h m. []) ''c1'' [Call_start, Call_configureServer quiet_server, Run_microtask])
      = Resolved ()
 \<and> server (fst (run (\<lambda>h m. []) [Call_stop]
      (session_after (\<lambda>h m. []) ''c1'' [Call_start, Call_configureServer quiet_server, Run_microtask])))
      = Some quiet_server"
proof -
  have r: "state (session_after (\<lambda>h m. []) ''c1'' [Call_start, Call_configureServer quiet_server, Run_microtask]) = Running"
    by (simp add: session_after_def new_client_def lifecycle_defs)
  have s: "server (session_after (\<lambda>h m. []) ''c1'' [Call_start, Call_configureServer quiet_server, Run_microtask])
      = Some quiet_server"
    by (simp add: session_after_def new_client_def lifecycle_defs)
  show ?thesis
    using r s binding_present_after_successful_start
      [of "\<lambda>h m. []" "''c1''" "[Call_start, Call_configureServer quiet_server, Run_microtask]"]
    by blast
qed

section \<open>Dispatch of messages from the server\<close>

lemma remove_remove1: "remove xs v = remove1 v xs"
  by (induction xs) auto

lemma distinct_run_calls:
  "distinct (actionMessageHandlers s) \<Longrightarrow> distinct (actionMessageHandlers (fst (run_calls cs s)))"
  by (induction cs s rule: run_calls.induct)
     (simp_all add: onActionMessage_def distinctAdd_def remove_remove1)

lemma distinct_forEach:
  "distinct (actionMessageHandlers s) \<Longrightarrow>
   distinct (actionMessageHandlers (fst (forEach beh m hs s)))"
  by (induction hs arbitrary: s)
     (simp_all add: forEach_Cons call_handler_def distinct_run_calls)

lemma distinct_step:
  assumes "distinct (actionMessageHandlers s)"
  shows "distinct (actionMessageHandlers (fst (step beh ev s)))"
proof (cases ev)
  case Call_start
  then show ?thesis using assms by (simp add: start_def)
next
  case (Call_configureServer srv)
  then show ?thesis using assms by (simp add: configureServer_def)
next
  case Call_stop
  then show ?thesis using assms
    by (simp add: stop_def stop_finally_def Let_def split: option.splits)
next
  case Timer_fires
  then show ?thesis using assms
    by (cases "race s"; cases "timer s") (simp_all add: timerFires_def microtask_def)
next
  case Run_microtask
  then show ?thesis using assms by (cases "race s") (simp_all add: microtask_def)
next
  case (Call_onActionMessage h)
  then show ?thesis using assms by (simp add: onActionMessage_def distinctAdd_def)
next
  case (Call_dispose h)
  then show ?thesis using assms by (simp add: remove_remove1)
next
  case (Proxy_process m)
  then show ?thesis using assms by (simp add: proxy_process_def distinct_forEach split_def)
qed (simp_all add: assms setStartupTimeout_def)

lemma distinct_run:
  "distinct (actionMessageHandlers s) \<Longrightarrow> distinct (actionMessageHandlers (fst (run beh evs s)))"
proof (induction evs arbitrary: s)
  case Nil
  then show ?case by simp
next
  case (Cons ev evs)
  from Cons.IH [OF distinct_step [OF Cons.prems, of beh ev]] show ?case
    by (simp add: split_def Let_def)
qed

lemma distinct_session_after: "distinct (actionMessageHandlers (session_after beh ident evs))"
  unfolding session_after_def by (rule distinct_run) (simp add: new_client_def)

lemma run_calls_result: "snd (run_calls cs s) = map_option HandlerFailure (thrown cs)"
  by (induction cs s rule: run_calls.induct) simp_all

lemma call_handler_result:
  "snd (call_handler beh h m s) = map_option HandlerFailure (thrown (beh h m))"
  by (simp add: call_handler_def run_calls_result)

lemma forEach_effects:
  "fst (snd (forEach beh m hs s)) = map (\<lambda>h. Invoke h m) (delivered beh m hs)"
  by (induction hs arbitrary: s)
     (auto simp add: forEach_Cons call_handler_result split: option.splits)

lemma forEach_result:
  "snd (snd (forEach beh m hs s)) = None \<longleftrightarrow> (\<forall>h \<in> set hs. thrown (beh h m) = None)"
  by (induction hs arbitrary: s)
     (auto simp add: forEach_Cons call_handler_result split: option.splits)

lemma delivered_prefix: "\<exists>rest. hs = delivered beh m hs @ rest"
proof (induction hs)
  case Nil
  then show ?case by simp
next
  case (Cons h hs)
  then obtain rest where "hs = delivered beh m hs @ rest" by blast
  then show ?case
    by (cases "thrown (beh h m)") (auto intro: exI [of _ rest] exI [of _ hs])
qed

lemma delivered_all:
  "\<forall>h \<in> set hs. thrown (beh h m) = None \<Longrightarrow> delivered beh m hs = hs"
  by (induction hs) simp_all

lemma invoked_map: "invoked (map (\<lambda>h. Invoke h m) hs) = hs"
  by (induction hs) simp_all

lemma absent_after_calls:
  assumes "distinct (actionMessageHandlers s)" "Subscribe h \<notin> set cs" "thrown cs = None"
    and "h \<notin> set (actionMessageHandlers s) \<or> Unsubscribe h \<in> set cs"
  shows "h \<notin> set (actionMessageHandlers (fst (run_calls cs s)))"
  using assms
proof (induction cs s rule: run_calls.induct)
  case (1 s)
  then show ?case by simp
next
  case (2 g rest s)
  have "distinct (actionMessageHandlers (fst (onActionMessage g s)))"
    using "2.prems"(1) by (simp add: onActionMessage_def distinctAdd_def)
  moreover have "h \<notin> set (actionMessageHandlers (fst (onActionMessage g s)))
      \<or> Unsubscribe h \<in> set rest"
    using "2.prems"(2,4) by (auto simp add: onActionMessage_def distinctAdd_def)
  ultimately show ?case
    using "2.IH" "2.prems"(2,3) by simp
next
  case (3 g rest s)
  have "distinct (actionMessageHandlers (dispose (Disposable g) s))"
    using "3.prems"(1) by (simp add: remove_remove1)
  moreover have "h \<notin> set (actionMessageHandlers (dispose (Disposable g) s))
      \<or> Unsubscribe h \<in> set rest"
    using "3.prems"(1,4) by (auto simp add: remove_remove1)
  ultimately show ?case
    using "3.IH" "3.prems"(2,3) by simp
next
  case (4 e rest s)
  then show ?case by simp
qed

lemma absent_after_forEach:
  assumes "distinct (actionMessageHandlers s)" "\<forall>g \<in> set gs. Subscribe h \<notin> set (beh g m)"
    and "\<forall>g \<in> set gs. thrown (beh g m) = None"
    and "h \<notin> set (actionMessageHandlers s) \<or> (\<exists>g \<in> set gs. Unsubscribe h \<in> set (beh g m))"
  shows "h \<notin> set (actionMessageHandlers (fst (forEach beh m gs s)))"
  using assms
proof (induction gs arbitrary: s)
  case Nil
  then show ?case by simp
next
  case (Cons g gs)
  let ?s1 = "fst (call_handler beh g m s)"
  have d: "distinct (actionMessageHandlers ?s1)"
    using Cons.prems(1) by (simp add: call_handler_def distinct_run_calls)
  have n: "\<forall>g \<in> set gs. Subscribe h \<notin> set (beh g m)" "Subscribe h \<notin> set (beh g m)"
    using Cons.prems(2) by simp_all
  have t: "\<forall>g \<in> set gs. thrown (beh g m) = None" "thrown (beh g m) = None"
    using Cons.prems(3) by simp_all
  have "h \<notin> set (actionMessageHandlers ?s1) \<or> (\<exists>g \<in> set gs. Unsubscribe h \<in> set (beh g m))"
  proof (cases "\<exists>g \<in> set gs. Unsubscribe h \<in> set (beh g m)")
    case True
    then show ?thesis by simp
  next
    case False
    then have "h \<notin> set (actionMessageHandlers s) \<or> Unsubscribe h \<in> set (beh g m)"
      using Cons.prems(4) by auto
    then have "h \<notin> set (actionMessageHandlers ?s1)"
      unfolding call_handler_def by (rule absent_after_calls [OF Cons.prems(1) n(2) t(2)])
    then show ?thesis by simp
  qed
  from Cons.IH [OF d n(1) t(1) this] show ?case
    by (simp add: forEach_Cons call_handler_result t(2))
qed

lemma not_invoked_when_absent:
  assumes "h \<notin> set (actionMessageHandlers s)"
  shows "Invoke h m \<notin> set (fst (snd (proxy_process beh m s)))"
proof -
  obtain rest where "actionMessageHandlers s = delivered beh m (actionMessageHandlers s) @ rest"
    using delivered_prefix by blast
  then have "set (delivered beh m (actionMessageHandlers s)) \<subseteq> set (actionMessageHandlers s)"
    by (metis set_append Un_upper1)
  then show ?thesis
    using assms by (auto simp add: proxy_process_def forEach_effects)
qed

text \<open>
  Claim C8, as the specification states it, fails. Two handlers are registered, each of
  which unregisters the other one and throws. The dispatch calls one handler only and
  throws its exception: the other handler, registered when the dispatch began, is not
  called in this round, and being unregistered it is not in the array for the next round
  either.
\<close>

theorem dispatch_cut_short_counterexample:
  "set (actionMessageHandlers (session_after throwing_handlers ''c1''
      [Call_onActionMessage 1, Call_onActionMessage 2])) = {1, 2}
 \<and> length (invoked (fst (snd (proxy_process throwing_handlers ''m''
      (session_after throwing_handlers ''c1'' [Call_onActionMessage 1, Call_onActionMessage 2])))))
     = 1
 \<and> snd (snd (proxy_process throwing_handlers ''m''
      (session_after throwing_handlers ''c1'' [Call_onActionMessage 1, Call_onActionMessage 2])))
     = Some (HandlerFailure ''handler failed'')
 \<and> actionMessageHandlers (fst (proxy_process throwing_handlers ''m''
      (session_after throwing_handlers ''c1'' [Call_onActionMessage 1, Call_onActionMessage 2])))
     = invoked (fst (snd (proxy_process throwing_handlers ''m''
      (session_after throwing_handlers ''c1'' [Call_onActionMessage 1, Call_onActionMessage 2]))))"
  by (auto simp add: session_after_def new_client_def onActionMessage_def distinctAdd_def
      proxy_process_def forEach_Cons call_handler_def throwing_handlers_def)

text \<open>
  Claim C8, amended. In every client that a run can produce the handler array has no
  duplicates, and \<open>proxy.process(message)\<close> calls the handlers that are in the array when
  the dispatch begins, in the order of the array, each at most once, with that message, up
  to and including the first handler that throws; it returns normally exactly when none
  of them throws. With an empty array the message is dropped with a warning, without an
  error, and the client is unchanged. When no handler of the array throws on the message,
  exactly the handlers of the array are called, each once, whatever they register or
  unregister while they run; and a handler that is unregistered during the dispatch, by
  itself or by another handler, and not registered again in it, is called in this round,
  is no longer in the array afterwards and is not called by the next dispatch.
\<close>

theorem dispatch_invokes_snapshot_until_throw:
  "distinct (actionMessageHandlers (session_after beh ident evs))
 \<and> (actionMessageHandlers (session_after beh ident evs) = [] \<longrightarrow>
      proxy_process beh m (session_after beh ident evs)
        = (session_after beh ident evs, [Warn m], None))
 \<and> (actionMessageHandlers (session_after beh ident evs) \<noteq> [] \<longrightarrow>
      fst (snd (proxy_process beh m (session_after beh ident evs)))
        = map (\<lambda>h. Invoke h m)
            (delivered beh m (actionMessageHandlers (session_after beh ident evs))))
 \<and> (\<exists>rest. actionMessageHandlers (session_after beh ident evs)
        = delivered beh m (actionMessageHandlers (session_after beh ident evs)) @ rest)
 \<and> (snd (snd (proxy_process beh m (session_after beh ident evs))) = None
      \<longleftrightarrow> (\<forall>g \<in> set (actionMessageHandlers (session_after beh ident evs)).
             thrown (beh g m) = None))
 \<and> ((\<forall>g \<in> set (actionMessageHandlers (session_after beh ident evs)). thrown (beh g m) = None)
      \<longrightarrow>
        (actionMessageHandlers (session_after beh ident evs) \<noteq> [] \<longrightarrow>
           fst (snd (proxy_process beh m (session_after beh ident evs)))
             = map (\<lambda>h. Invoke h m) (actionMessageHandlers (session_after beh ident evs))
         \<and> invoked (fst (snd (proxy_process beh m (session_after beh ident evs))))
             = actionMessageHandlers (session_after beh ident evs))
      \<and> (\<forall>h. h \<in> set (actionMessageHandlers (session_after beh ident evs))
            \<and> (\<exists>g \<in> set (actionMessageHandlers (session_after beh ident evs)).
                  Unsubscribe h \<in> set (beh g m))
            \<and> (\<forall>g \<in> set (actionMessageHandlers (session_after beh ident evs)).
                  Subscribe h \<notin> set (beh g m))
          \<longrightarrow> Invoke h m \<in> set (fst (snd (proxy_process beh m (session_after beh ident evs))))
            \<and> h \<notin> set (actionMessageHandlers
                          (fst (proxy_process beh m (session_after beh ident evs))))
            \<and> (\<forall>m'. Invoke h m' \<notin> set (fst (snd (proxy_process beh m'
                          (fst (proxy_process beh m (session_after beh ident evs)))))))))"
proof -
  define s where "s = session_after beh ident evs"
  have d: "distinct (actionMessageHandlers s)"
    unfolding s_def by (rule distinct_session_after)
  have w: "proxy_process beh m s = (s, [Warn m], None)" if "actionMessageHandlers s = []"
    using that by (simp add: proxy_process_def)
  have e: "fst (snd (proxy_process beh m s))
      = map (\<lambda>h. Invoke h m) (delivered beh m (actionMessageHandlers s))"
    if "actionMessageHandlers s \<noteq> []"
    using that by (simp add: proxy_process_def forEach_effects)
  have p: "\<exists>rest. actionMessageHandlers s = delivered beh m (actionMessageHandlers s) @ rest"
    by (rule delivered_prefix)
  have r: "snd (snd (proxy_process beh m s)) = None
      \<longleftrightarrow> (\<forall>g \<in> set (actionMessageHandlers s). thrown (beh g m) = None)"
    by (cases "actionMessageHandlers s = []") (simp_all add: proxy_process_def forEach_result)
  have a: "fst (snd (proxy_process beh m s)) = map (\<lambda>h. Invoke h m) (actionMessageHandlers s)
         \<and> invoked (fst (snd (proxy_process beh m s))) = actionMessageHandlers s"
    if "\<forall>g \<in> set (actionMessageHandlers s). thrown (beh g m) = None"
      and "actionMessageHandlers s \<noteq> []"
    using e [OF that(2)] delivered_all [of "actionMessageHandlers s" beh m, OF that(1)]
    by (simp add: invoked_map)
  have u: "Invoke h m \<in> set (fst (snd (proxy_process beh m s)))
        \<and> h \<notin> set (actionMessageHandlers (fst (proxy_process beh m s)))
        \<and> (\<forall>m'. Invoke h m' \<notin> set (fst (snd (proxy_process beh m' (fst (proxy_process beh m s))))))"
    if nt: "\<forall>g \<in> set (actionMessageHandlers s). thrown (beh g m) = None"
      and h: "h \<in> set (actionMessageHandlers s)"
      and un: "\<exists>g \<in> set (actionMessageHandlers s). Unsubscribe h \<in> set (beh g m)"
      and no: "\<forall>g \<in> set (actionMessageHandlers s). Subscribe h \<notin> set (beh g m)"
    for h
  proof -
    have ne: "actionMessageHandlers s \<noteq> []" using h by auto
    have 1: "Invoke h m \<in> set (fst (snd (proxy_process beh m s)))"
      using a [OF nt ne] h by simp
    have "h \<notin> set (actionMessageHandlers (fst (forEach beh m (actionMessageHandlers s) s)))"
      using d no nt un by (intro absent_after_forEach) auto
    then have 2: "h \<notin> set (actionMessageHandlers (fst (proxy_process beh m s)))"
      using ne by (simp add: proxy_process_def)
    show ?thesis
      using 1 2 not_invoked_when_absent [OF 2] by blast
  qed
  show ?thesis
    unfolding s_def [symmetric] using d w e p r a u by blast
qed

theorem dispatch_invokes_snapshot_until_throw_witness:
  "actionMessageHandlers (session_after (\<lambda>h m. if h = 1 then [Unsubscribe 1] else []) ''c1''
      [Call_onActionMessage 1, Call_onActionMessage 2]) = [1, 2]
 \<and> thrown ((\<lambda>h m. if h = 1 then [Unsubscribe 1] else []) (1::nat) ''m'') = None
 \<and> thrown ((\<lambda>h m. if h = 1 then [Unsubscribe 1] else []) (2::nat) ''m'') = None
 \<and> fst (snd (proxy_process (\<lambda>h m. if h = 1 then [Unsubscribe 1] else []) ''m''
      (session_after (\<lambda>h m. if h = 1 then [Unsubscribe 1] else []) ''c1''
        [Call_onActionMessage 1, Call_onActionMessage 2])))
     = [Invoke 1 ''m'', Invoke 2 ''m'']
 \<and> snd (snd (proxy_process (\<lambda>h m. if h = 1 then [Unsubscribe 1] else []) ''m''
      (session_after (\<lambda>h m. if h = 1 then [Unsubscribe 1] else []) ''c1''
        [Call_onActionMessage 1, Call_onActionMessage 2])))
     = None
 \<and> 1 \<notin> set (actionMessageHandlers
      (fst (proxy_process (\<lambda>h m. if h = 1 then [Unsubscribe 1] else []) ''m''
        (session_after (\<lambda>h m. if h = 1 then [Unsubscribe 1] else []) ''c1''
          [Call_onActionMessage 1, Call_onActionMessage 2]))))
 \<and> Invoke 1 ''n'' \<notin> set (fst (snd (proxy_process (\<lambda>h m. if h = 1 then [Unsubscribe 1] else []) ''n''
      (fst (proxy_process (\<lambda>h m. if h = 1 then [Unsubscribe 1] else []) ''m''
        (session_after (\<lambda>h m. if h = 1 then [Unsubscribe 1] else []) ''c1''
          [Call_onActionMessage 1, Call_onActionMessage 2]))))))
 \<and> proxy_process (\<lambda>h m. []) ''m'' (session_after (\<lambda>h m. []) ''c1'' [])
     = (session_after (\<lambda>h m. []) ''c1'' [], [Warn ''m''], None)"
proof -
  define beh :: behaviour where "beh = (\<lambda>h m. if h = 1 then [Unsubscribe 1] else [])"
  define s where "s = session_after beh ''c1'' [Call_onActionMessage 1, Call_onActionMessage 2]"
  have hs: "actionMessageHandlers s = [1, 2]"
    by (simp add: s_def session_after_def new_client_def onActionMessage_def distinctAdd_def)
  have nt: "\<forall>g \<in> set (actionMessageHandlers s). thrown (beh g ''m'') = None"
    by (simp add: hs beh_def)
  have un: "\<exists>g \<in> set (actionMessageHandlers s). Unsubscribe 1 \<in> set (beh g ''m'')"
    by (simp add: hs beh_def)
  have no: "\<forall>g \<in> set (actionMessageHandlers s). Subscribe 1 \<notin> set (beh g ''m'')"
    by (simp add: hs beh_def)
  note t = dispatch_invokes_snapshot_until_throw
      [of beh "''c1''" "[Call_onActionMessage 1, Call_onActionMessage 2]" "''m''", folded s_def]
  have ne: "actionMessageHandlers s \<noteq> []" by (simp add: hs)
  have "fst (snd (proxy_process beh ''m'' s))
      = map (\<lambda>h. Invoke h ''m'') (actionMessageHandlers s)"
    using t nt ne by blast
  then have a: "fst (snd (proxy_process beh ''m'' s)) = [Invoke 1 ''m'', Invoke 2 ''m'']"
    by (simp add: hs)
  have r: "snd (snd (proxy_process beh ''m'' s)) = None"
    using t nt by blast
  have "1 \<in> set (actionMessageHandlers s)" by (simp add: hs)
  then have b: "1 \<notin> set (actionMessageHandlers (fst (proxy_process beh ''m'' s)))
      \<and> Invoke 1 ''n'' \<notin> set (fst (snd (proxy_process beh ''n'' (fst (proxy_process beh ''m'' s)))))"
    using t nt un no by blast
  have e: "actionMessageHandlers (session_after (\<lambda>h m. []) ''c1'' []) = []"
    by (simp add: session_after_def new_client_def)
  have c: "proxy_process (\<lambda>h m. []) ''m'' (session_after (\<lambda>h m. []) ''c1'' [])
     = (session_after (\<lambda>h m. []) ''c1'' [], [Warn ''m''], None)"
    using dispatch_invokes_snapshot_until_throw [of "\<lambda>h m. []" "''c1''" "[]" "''m''"] e by blast
  have nt': "thrown (beh 1 ''m'') = None" "thrown (beh 2 ''m'') = None"
    by (simp_all add: beh_def)
  show ?thesis
    using hs nt' a r b c unfolding s_def beh_def by blast
qed

section \<open>Registering handlers\<close>

lemma filter_remove_other: "\<not> P v \<Longrightarrow> filter P (remove xs v) = filter P xs"
  by (induction xs) auto

lemma filter_absent: "v \<notin> set xs \<Longrightarrow> filter (\<lambda>g. g \<noteq> v) xs = xs"
  by (induction xs) auto

lemma remove_distinct: "distinct xs \<Longrightarrow> remove xs v = filter (\<lambda>g. g \<noteq> v) xs"
  by (induction xs) (auto simp add: filter_absent)

text \<open>
  Claim C9. \<open>onActionMessage(handler)\<close> returns the capability for that handler.
  Registering a handler that is already registered leaves the client as it is, so
  registering twice is the same as registering once; registering adds the handler to the
  set of handlers and nothing else, and the array stays free of duplicates. Disposing the
  capability removes that handler and keeps all the others, in their order.
\<close>

theorem onActionMessage_set_semantics:
  "snd (onActionMessage h (session_after beh ident evs)) = Disposable h
 \<and> (h \<in> set (actionMessageHandlers (session_after beh ident evs)) \<longrightarrow>
      fst (onActionMessage h (session_after beh ident evs)) = session_after beh ident evs)
 \<and> fst (onActionMessage h (fst (onActionMessage h (session_after beh ident evs))))
      = fst (onActionMessage h (session_after beh ident evs))
 \<and> set (actionMessageHandlers (fst (onActionMessage h (session_after beh ident evs))))
      = insert h (set (actionMessageHandlers (session_after beh ident evs)))
 \<and> distinct (actionMessageHandlers (fst (onActionMessage h (session_after beh ident evs))))
 \<and> actionMessageHandlers (dispose (snd (onActionMessage h s0)) (session_after beh ident evs))
      = filter (\<lambda>g. g \<noteq> h) (actionMessageHandlers (session_after beh ident evs))
 \<and> set (actionMessageHandlers (dispose (snd (onActionMessage h s0)) (session_after beh ident evs)))
      = set (actionMessageHandlers (session_after beh ident evs)) - {h}"
proof -
  define s where "s = session_after beh ident evs"
  have d: "distinct (actionMessageHandlers s)"
    unfolding s_def by (rule distinct_session_after)
  have 1: "snd (onActionMessage h s) = Disposable h"
    by (simp add: onActionMessage_def)
  have 2: "fst (onActionMessage h s) = s" if "h \<in> set (actionMessageHandlers s)"
    using that by (simp add: onActionMessage_def distinctAdd_def)
  have 3: "fst (onActionMessage h (fst (onActionMessage h s))) = fst (onActionMessage h s)"
    by (simp add: onActionMessage_def distinctAdd_def)
  have 4: "set (actionMessageHandlers (fst (onActionMessage h s)))
      = insert h (set (actionMessageHandlers s))"
    by (auto simp add: onActionMessage_def distinctAdd_def)
  have 5: "distinct (actionMessageHandlers (fst (onActionMessage h s)))"
    using d by (simp add: onActionMessage_def distinctAdd_def)
  have 6: "actionMessageHandlers (dispose (snd (onActionMessage h s0)) s)
      = filter (\<lambda>g. g \<noteq> h) (actionMessageHandlers s)"
    using d by (simp add: onActionMessage_def remove_distinct)
  have 7: "set (actionMessageHandlers (dispose (snd (onActionMessage h s0)) s))
      = set (actionMessageHandlers s) - {h}"
    unfolding 6 by auto
  show ?thesis
    unfolding s_def [symmetric] using 1 2 3 4 5 6 7 by blast
qed

theorem onActionMessage_set_semantics_witness:
  "actionMessageHandlers (session_after (\<lambda>h m. []) ''c1'' [Call_onActionMessage 1, Call_onActionMessage 2])
     = [1, 2]
 \<and> 1 \<in> set (actionMessageHandlers
      (session_after (\<lambda>h m. []) ''c1'' [Call_onActionMessage 1, Call_onActionMessage 2]))
 \<and> fst (onActionMessage 1
      (session_after (\<lambda>h m. []) ''c1'' [Call_onActionMessage 1, Call_onActionMessage 2]))
     = session_after (\<lambda>h m. []) ''c1'' [Call_onActionMessage 1, Call_onActionMessage 2]
 \<and> actionMessageHandlers (dispose (snd (onActionMessage 1 (new_client ''c1'')))
      (session_after (\<lambda>h m. []) ''c1'' [Call_onActionMessage 1, Call_onActionMessage 2]))
     = [2]"
proof -
  define s where "s = session_after (\<lambda>h m. []) ''c1'' [Call_onActionMessage 1, Call_onActionMessage 2]"
  have hs: "actionMessageHandlers s = [1, 2]"
    by (simp add: s_def session_after_def new_client_def onActionMessage_def distinctAdd_def)
  note t = onActionMessage_set_semantics
      [of 1 "\<lambda>h m. []" "''c1''" "[Call_onActionMessage 1, Call_onActionMessage 2]" "new_client ''c1''",
       folded s_def]
  have m: "1 \<in> set (actionMessageHandlers s)" by (simp add: hs)
  have a: "fst (onActionMessage 1 s) = s" using t m by blast
  have "actionMessageHandlers (dispose (snd (onActionMessage 1 (new_client ''c1''))) s)
      = filter (\<lambda>g. g \<noteq> 1) (actionMessageHandlers s)"
    using t by blast
  then have b: "actionMessageHandlers (dispose (snd (onActionMessage 1 (new_client ''c1''))) s) = [2]"
    by (simp add: hs)
  show ?thesis
    using hs m a b unfolding s_def by blast
qed

section \<open>Order of invocation\<close>

lemma in_order_members: "in_order h1 h2 hs \<Longrightarrow> h1 \<in> set hs \<and> h2 \<in> set hs"
proof -
  assume "in_order h1 h2 hs"
  then have "set (filter (\<lambda>h. h = h1 \<or> h = h2) hs) = {h1, h2}"
    by (simp add: in_order_def)
  then show ?thesis by auto
qed

lemma filter_single: "distinct xs \<Longrightarrow> a \<in> set xs \<Longrightarrow> filter (\<lambda>h. h = a) xs = [a]"
proof (induction xs)
  case Nil
  then show ?case by simp
next
  case (Cons x xs)
  show ?case
  proof (cases "x = a")
    case True
    then have "a \<notin> set xs" using Cons.prems(1) by simp
    then have "filter (\<lambda>h. h = a) xs = []" by (induction xs) auto
    then show ?thesis using True by simp
  next
    case False
    then show ?thesis using Cons by simp
  qed
qed

lemma in_order_register:
  assumes "distinct hs" "h1 \<in> set hs" "h2 \<notin> set hs"
  shows "in_order h1 h2 (distinctAdd hs h2)"
proof -
  have "filter (\<lambda>h. h = h1 \<or> h = h2) hs = filter (\<lambda>h. h = h1) hs"
    using assms(3) by (intro filter_cong) auto
  then have "filter (\<lambda>h. h = h1 \<or> h = h2) hs = [h1]"
    using filter_single [OF assms(1,2)] by simp
  then show ?thesis
    using assms(3) by (simp add: in_order_def distinctAdd_def)
qed

lemma in_order_subscribe:
  assumes "in_order h1 h2 (actionMessageHandlers s)"
  shows "in_order h1 h2 (actionMessageHandlers (fst (onActionMessage g s)))"
proof (cases "g \<in> set (actionMessageHandlers s)")
  case True
  then show ?thesis using assms by (simp add: onActionMessage_def distinctAdd_def)
next
  case False
  then have "g \<noteq> h1" "g \<noteq> h2" using in_order_members [OF assms] by auto
  then show ?thesis using assms False
    by (simp add: onActionMessage_def distinctAdd_def in_order_def)
qed

lemma in_order_unsubscribe:
  assumes "in_order h1 h2 (actionMessageHandlers s)" "g \<noteq> h1" "g \<noteq> h2"
  shows "in_order h1 h2 (actionMessageHandlers (dispose (Disposable g) s))"
proof -
  have "\<not> (g = h1 \<or> g = h2)" using assms(2,3) by auto
  then show ?thesis using assms(1)
    by (simp add: in_order_def filter_remove_other)
qed

lemma in_order_calls:
  assumes "in_order h1 h2 (actionMessageHandlers s)"
    "Unsubscribe h1 \<notin> set cs" "Unsubscribe h2 \<notin> set cs"
  shows "in_order h1 h2 (actionMessageHandlers (fst (run_calls cs s)))"
  using assms
proof (induction cs s rule: run_calls.induct)
  case (1 s)
  then show ?case by simp
next
  case (2 g rest s)
  from "2.IH" [OF in_order_subscribe [OF "2.prems"(1)]] "2.prems"(2,3)
  show ?case by simp
next
  case (3 g rest s)
  have "g \<noteq> h1" "g \<noteq> h2" using "3.prems"(2,3) by auto
  from "3.IH" [OF in_order_unsubscribe [OF "3.prems"(1) this]] "3.prems"(2,3)
  show ?case by simp
next
  case (4 e rest s)
  then show ?case by simp
qed

lemma in_order_forEach:
  assumes "in_order h1 h2 (actionMessageHandlers s)"
    "\<forall>g. Unsubscribe h1 \<notin> set (beh g m) \<and> Unsubscribe h2 \<notin> set (beh g m)"
  shows "in_order h1 h2 (actionMessageHandlers (fst (forEach beh m gs s)))"
  using assms(1)
proof (induction gs arbitrary: s)
  case Nil
  then show ?case by simp
next
  case (Cons g gs)
  have c: "in_order h1 h2 (actionMessageHandlers (fst (call_handler beh g m s)))"
    unfolding call_handler_def using Cons.prems assms(2) by (intro in_order_calls) auto
  from Cons.IH [OF c] c show ?case by (simp add: forEach_Cons)
qed

lemma in_order_step:
  assumes "in_order h1 h2 (actionMessageHandlers s)"
    and "ev \<noteq> Call_dispose h1" "ev \<noteq> Call_dispose h2"
    and "\<forall>g m. ev = Proxy_process m \<longrightarrow>
           Unsubscribe h1 \<notin> set (beh g m) \<and> Unsubscribe h2 \<notin> set (beh g m)"
  shows "in_order h1 h2 (actionMessageHandlers (fst (step beh ev s)))"
proof (cases ev)
  case Call_start
  then show ?thesis using assms(1) by (simp add: start_def)
next
  case (Call_configureServer srv)
  then show ?thesis using assms(1) by (simp add: configureServer_def)
next
  case Call_stop
  then show ?thesis using assms(1)
    by (simp add: stop_def stop_finally_def Let_def split: option.splits)
next
  case Timer_fires
  then show ?thesis using assms(1)
    by (cases "race s"; cases "timer s") (simp_all add: timerFires_def microtask_def)
next
  case Run_microtask
  then show ?thesis using assms(1) by (cases "race s") (simp_all add: microtask_def)
next
  case (Call_onActionMessage h)
  then show ?thesis using in_order_subscribe [OF assms(1), of h] by simp
next
  case (Call_dispose h)
  then have "h \<noteq> h1" "h \<noteq> h2" using assms(2,3) by auto
  from in_order_unsubscribe [OF assms(1) this] show ?thesis
    using Call_dispose by simp
next
  case (Proxy_process m)
  then have "\<forall>g. Unsubscribe h1 \<notin> set (beh g m) \<and> Unsubscribe h2 \<notin> set (beh g m)"
    using assms(4) by simp
  from in_order_forEach [of h1 h2 s beh m, OF assms(1) this] show ?thesis
    using Proxy_process assms(1) by (auto simp add: proxy_process_def split_def)
qed (simp_all add: assms(1) setStartupTimeout_def)

lemma in_order_run:
  assumes "in_order h1 h2 (actionMessageHandlers s)"
    and "Call_dispose h1 \<notin> set evs" "Call_dispose h2 \<notin> set evs"
    and "\<forall>g m. Proxy_process m \<in> set evs \<longrightarrow>
           Unsubscribe h1 \<notin> set (beh g m) \<and> Unsubscribe h2 \<notin> set (beh g m)"
  shows "in_order h1 h2 (actionMessageHandlers (fst (run beh evs s)))"
  using assms
proof (induction evs arbitrary: s)
  case Nil
  then show ?case by simp
next
  case (Cons ev evs)
  have "in_order h1 h2 (actionMessageHandlers (fst (step beh ev s)))"
    using Cons.prems by (intro in_order_step) auto
  from Cons.IH [OF this] Cons.prems show ?case
    by (simp add: split_def Let_def)
qed

text \<open>
  With \<open>distinctAdd\<close> as it is modelled, a handler registered later stands later in the
  array, and stays there as long as neither of the two is unregistered. The sources do not
  contain \<open>distinctAdd\<close>; this lemma says nothing about another placement.
\<close>

lemma registration_keeps_array_order:
  assumes "h1 \<in> set (actionMessageHandlers (session_after beh ident evs))"
    and "h2 \<notin> set (actionMessageHandlers (session_after beh ident evs))"
    and "Call_dispose h1 \<notin> set later" "Call_dispose h2 \<notin> set later"
    and "\<forall>g m'. Proxy_process m' \<in> set later \<longrightarrow>
           Unsubscribe h1 \<notin> set (beh g m') \<and> Unsubscribe h2 \<notin> set (beh g m')"
  shows "in_order h1 h2 (actionMessageHandlers
           (fst (run beh (Call_onActionMessage h2 # later) (session_after beh ident evs))))"
proof -
  define s where "s = session_after beh ident evs"
  define s1 where "s1 = fst (step beh (Call_onActionMessage h2) s)"
  have d: "distinct (actionMessageHandlers s)"
    unfolding s_def by (rule distinct_session_after)
  have "in_order h1 h2 (actionMessageHandlers s1)"
    using in_order_register [OF d] assms(1,2)
    by (simp add: s1_def s_def onActionMessage_def)
  then have "in_order h1 h2 (actionMessageHandlers (fst (run beh later s1)))"
    using assms(3,4,5) by (rule in_order_run)
  moreover have "fst (run beh (Call_onActionMessage h2 # later) s) = fst (run beh later s1)"
    by (simp add: s1_def split_def Let_def)
  ultimately show ?thesis
    unfolding s_def by simp
qed





section \<open>Every change of state in a run\<close>

text \<open>
  Whatever happens to a client, \<open>state\<close> moves along the edges of the transition graph,
  with two exceptions only: from \<open>Stopped\<close> to \<open>Running\<close> and from \<open>Stopped\<close> to
  \<open>StartFailed\<close>, both made by the callback of a start race that \<open>stop()\<close> overtook.
\<close>

lemma follows_code_append:
  "follows_code c (xs @ ys) \<longleftrightarrow> follows_code c xs \<and> follows_code (last (c # xs)) ys"
  by (induction xs arbitrary: c) auto

lemma states_of_append: "states_of (xs @ ys) = states_of xs @ states_of ys"
  by (induction xs rule: states_of.induct) simp_all

lemma states_of_invocations: "states_of (map (\<lambda>h. Invoke h m) hs) = []"
  by (induction hs) simp_all

lemma states_of_server_operations:
  "states_of (snd (sendActionMessage m s)) = []"
  "states_of (snd (initializeServer p s)) = []"
  "states_of (snd (initializeClientSession p s)) = []"
  "states_of (snd (disposeClientSession p s)) = []"
  "states_of (snd (shutdownServer s)) = []"
  by (simp_all add: sendActionMessage_def initializeServer_def initializeClientSession_def
      disposeClientSession_def shutdownServer_def split: sum.splits option.splits)

lemma step_transitions:
  assumes "race_inv s"
  shows "race_inv (fst (step beh ev s))
       \<and> follows_code (state s) (states_of (snd (step beh ev s)))
       \<and> state (fst (step beh ev s)) = last (state s # states_of (snd (step beh ev s)))"
proof (cases ev)
  case Call_start
  then show ?thesis using assms unfolding race_inv_def
    by (cases "serverDeferred s") (auto simp add: start_def transition_in_code_def)
next
  case (Call_configureServer srv)
  then show ?thesis using assms unfolding race_inv_def
    by (cases "race s"; cases "serverDeferred s") (auto simp add: configureServer_def)
next
  case Call_stop
  then show ?thesis using assms unfolding race_inv_def
    by (cases "state s")
       (auto simp add: stop_def stop_finally_def Let_def transition_in_code_def
         split: option.splits)
next
  case Timer_fires
  then show ?thesis using assms unfolding race_inv_def
    by (cases "race s"; cases "timer s")
       (auto simp add: timerFires_def microtask_def transition_in_code_def)
next
  case Run_microtask
  then show ?thesis using assms unfolding race_inv_def
    by (cases "race s") (auto simp add: microtask_def transition_in_code_def)
next
  case (Proxy_process m)
  then show ?thesis using assms unfolding race_inv_def
    by (auto simp add: proxy_process_def forEach_lifecycle forEach_effects states_of_invocations
        split_def)
next
  case (Call_setStartupTimeout ms)
  then show ?thesis using assms unfolding race_inv_def
    by (simp add: setStartupTimeout_def)
next
  case (Call_onActionMessage h)
  then show ?thesis using assms unfolding race_inv_def
    by (simp add: onActionMessage_def)
next
  case (Call_dispose h)
  then show ?thesis using assms unfolding race_inv_def
    by simp
qed (simp_all add: assms states_of_server_operations)

lemma run_transitions:
  assumes "race_inv s"
  shows "follows_code (state s) (states_of (snd (run beh evs s)))
       \<and> state (fst (run beh evs s)) = last (state s # states_of (snd (run beh evs s)))"
  using assms
proof (induction evs arbitrary: s)
  case Nil
  then show ?case by simp
next
  case (Cons ev evs)
  let ?s1 = "fst (step beh ev s)"
  have st: "race_inv ?s1" "follows_code (state s) (states_of (snd (step beh ev s)))"
    "state ?s1 = last (state s # states_of (snd (step beh ev s)))"
    using step_transitions [OF Cons.prems, of beh ev] by auto
  have ih: "follows_code (state ?s1) (states_of (snd (run beh evs ?s1)))"
    "state (fst (run beh evs ?s1)) = last (state ?s1 # states_of (snd (run beh evs ?s1)))"
    using Cons.IH [OF st(1)] by auto
  have r: "run beh (ev # evs) s
      = (fst (run beh evs ?s1), snd (step beh ev s) @ snd (run beh evs ?s1))"
    by (simp add: split_def Let_def)
  have 1: "follows_code (state s) (states_of (snd (run beh (ev # evs) s)))"
    unfolding r using st(2) ih(1) st(3)
    by (simp add: states_of_append follows_code_append)
  have 2: "state (fst (run beh (ev # evs) s))
      = last (state s # states_of (snd (run beh (ev # evs) s)))"
    unfolding r using ih(2) st(3)
    by (simp add: states_of_append last_append)
  show ?case using 1 2 by blast
qed

lemma state_changes_of_a_run:
  "follows_code Initial (states_of (snd (run beh evs (new_client ident))))"
proof -
  have "race_inv (new_client ident)"
    by (simp add: race_inv_def new_client_def)
  from run_transitions [OF this, of beh evs] show ?thesis
    by (simp add: new_client_def)
qed

end
